theory Spec2Isabelle
  imports Main "HOL-Library.AList" "HOL-Library.Sublist"
begin

section \<open>TinyChat: the shared room and client registry of main.go\<close>

text \<open>
  The Go program keeps one \<open>Server\<close> with two maps, \<open>Rooms\<close> (room name to \<open>*Room\<close>) and
  \<open>Clients\<close> (nickname to \<open>*Client\<close>); every \<open>Room\<close> has a map \<open>Clients\<close> from nickname
  to \<open>*Client\<close>. The same \<open>*Client\<close> is reachable from a room and from the flat index, and
  \<open>ChangeNick\<close> assigns to its \<open>nick\<close> field, so clients live in an explicit store: a client
  pointer is an address, and the store maps addresses to client objects.

  A Go map is an association list here: lookup is \<open>map_of\<close>, \<open>m[k] = v\<close> is \<open>AList.update\<close>,
  \<open>delete(m, k)\<close> is \<open>AList.delete\<close>. Go leaves the order of \<open>range\<close> over a map unspecified;
  the order of the list stands for the order one \<open>range\<close> takes. No method ranges over the
  same map twice, so a theorem that is stated for every store holds for every order the
  loop of that operation may take. The order matters to \<open>findRoom\<close> only, and only when two
  rooms have the nickname as a key.

  A \<open>*Room\<close> is created by \<open>createRoom\<close> only, and stored under one name only, so a room
  pointer is the room's name. Every exported method of \<open>Server\<close> holds the server's mutex from
  entry to return, so the methods are atomic steps on the store; the mutexes themselves and
  the log written by \<open>errl\<close> are not modelled.
\<close>

type_synonym cid = nat

text \<open>
  \<open>Conn\<close> is the transport of a client: the strings handed to \<open>Conn.Write\<close> so far, in order
  (whether the peer accepts them is not the program's business: the source ignores the
  result of \<open>Conn.Write\<close>), and whether \<open>Conn.Close\<close> was called.
\<close>

record Client =
  nick :: string
  Conn :: "string list"
  closed :: bool

text \<open>\<open>RoomClients\<close> is the field \<open>Clients\<close> of \<open>Room\<close>; the one of \<open>Server\<close> keeps its name.\<close>

record Room =
  RoomClients :: "(string \<times> cid) list"

record Server =
  Rooms :: "(string \<times> Room) list"
  Clients :: "(string \<times> cid) list"

record world =
  Serv :: Server
  heap :: "cid \<Rightarrow> Client"

text \<open>The four errors the registry makes with \<open>errors.New\<close>, and their texts.\<close>

datatype error =
  UserExists string
  | UserNotExists string
  | NoRoom string
  | ClientAlreadyExists

definition CRLF :: string where
  "CRLF = [CHR 0x0D, CHR 0x0A]"


text \<open>The room \<open>initClient\<close> seats every new connection in.\<close>

definition DefaultRoom :: string where
  "DefaultRoom = ''Gotham City''"

subsection \<open>Client\<close>

definition Nick :: "world \<Rightarrow> cid \<Rightarrow> string" where
  "Nick st cl = nick (heap st cl)"

definition Write :: "cid \<Rightarrow> string \<Rightarrow> world \<Rightarrow> world" where
  "Write cl s st = st\<lparr>heap := (heap st)(cl := (heap st cl)\<lparr>Conn := Conn (heap st cl) @ [s]\<rparr>)\<rparr>"

subsection \<open>White space: strings.TrimSpace and strings.Fields\<close>

text \<open>
  Go strings are byte strings, and \<open>strings.TrimSpace\<close> and \<open>strings.Fields\<close> read them as
  UTF-8 and take \<open>unicode.IsSpace\<close> for white space: the six ASCII characters tab, line feed,
  vertical tab, form feed, carriage return and space, and the code points U+0085, U+00A0,
  U+1680, U+2000 to U+200A, U+2028, U+2029, U+202F, U+205F and U+3000. \<open>spaceToks\<close> lists
  their UTF-8 encodings; none of them is a prefix or a suffix of another one.
  \<open>spaceLen s\<close> is the number of bytes of the white space character \<open>s\<close> starts with, and 0
  when it starts with none; \<open>spaceLenLast s\<close> is the same for the character \<open>s\<close> ends with.
\<close>

definition spaceToks :: "string list" where
  "spaceToks =
     map (\<lambda>c. [c]) [CHR 0x09, CHR 0x0A, CHR 0x0B, CHR 0x0C, CHR 0x0D, CHR 0x20]
     @ [[CHR 0xC2, CHR 0x85], [CHR 0xC2, CHR 0xA0], [CHR 0xE1, CHR 0x9A, CHR 0x80]]
     @ map (\<lambda>c. [CHR 0xE2, CHR 0x80, c])
         [CHR 0x80, CHR 0x81, CHR 0x82, CHR 0x83, CHR 0x84, CHR 0x85, CHR 0x86, CHR 0x87,
          CHR 0x88, CHR 0x89, CHR 0x8A, CHR 0xA8, CHR 0xA9, CHR 0xAF]
     @ [[CHR 0xE2, CHR 0x81, CHR 0x9F], [CHR 0xE3, CHR 0x80, CHR 0x80]]"

definition spaceLen :: "string \<Rightarrow> nat" where
  "spaceLen s = (case find (\<lambda>t. prefix t s) spaceToks of Some t \<Rightarrow> length t | None \<Rightarrow> 0)"

definition spaceLenLast :: "string \<Rightarrow> nat" where
  "spaceLenLast s = (case find (\<lambda>t. suffix t s) spaceToks of Some t \<Rightarrow> length t | None \<Rightarrow> 0)"

lemma spaceLen_le: "spaceLen s \<le> length s"
  by (auto simp: spaceLen_def find_Some_iff prefix_length_le split: option.splits)

lemma spaceLenLast_le: "spaceLenLast s \<le> length s"
  by (auto simp: spaceLenLast_def find_Some_iff suffix_length_le split: option.splits)

function trimLeft :: "string \<Rightarrow> string" where
  "trimLeft s = (if spaceLen s = 0 then s else trimLeft (drop (spaceLen s) s))"
  by pat_completeness auto
termination
proof (relation "measure length")
  show "wf (measure length)" by simp
next
  fix s :: string
  assume "spaceLen s \<noteq> 0"
  moreover have "spaceLen s \<le> length s" by (rule spaceLen_le)
  ultimately show "(drop (spaceLen s) s, s) \<in> measure length" by simp
qed

function trimRight :: "string \<Rightarrow> string" where
  "trimRight s =
     (if spaceLenLast s = 0 then s else trimRight (take (length s - spaceLenLast s) s))"
  by pat_completeness auto
termination
proof (relation "measure length")
  show "wf (measure length)" by simp
next
  fix s :: string
  assume "spaceLenLast s \<noteq> 0"
  moreover have "spaceLenLast s \<le> length s" by (rule spaceLenLast_le)
  ultimately show "(take (length s - spaceLenLast s) s, s) \<in> measure length" by simp
qed

definition TrimSpace :: "string \<Rightarrow> string" where
  "TrimSpace s = trimRight (trimLeft s)"

text \<open>
  \<open>strings.Fields\<close>: the maximal runs of bytes between white space characters.
  \<open>FieldsFrom cur s\<close> has read the bytes \<open>cur\<close> of the current field and goes on with \<open>s\<close>.
\<close>

function FieldsFrom :: "string \<Rightarrow> string \<Rightarrow> string list" where
  "FieldsFrom cur s =
     (if s = [] then (if cur = [] then [] else [cur])
      else if spaceLen s = 0 then FieldsFrom (cur @ [hd s]) (tl s)
      else (if cur = [] then [] else [cur]) @ FieldsFrom [] (drop (spaceLen s) s))"
  by pat_completeness auto
termination
proof (relation "measure (\<lambda>(cur, s). length s)")
  show "wf (measure (\<lambda>(cur :: string, s :: string). length s))" by simp
next
  fix cur s :: string
  assume "s \<noteq> []"
  then show "((cur @ [hd s], tl s), (cur, s)) \<in> measure (\<lambda>(cur, s). length s)" by simp
next
  fix cur s :: string
  assume "s \<noteq> []" "spaceLen s \<noteq> 0"
  moreover have "spaceLen s \<le> length s" by (rule spaceLen_le)
  ultimately show "(([], drop (spaceLen s) s), (cur, s)) \<in> measure (\<lambda>(cur, s). length s)"
    by simp
qed

declare trimLeft.simps [simp del] trimRight.simps [simp del] FieldsFrom.simps [simp del]


subsection \<open>Server: the helpers that do not lock\<close>

definition NewServer :: Server where
  "NewServer = \<lparr>Rooms = [], Clients = []\<rparr>"

definition clientExists :: "world \<Rightarrow> string \<Rightarrow> bool" where
  "clientExists st n = (case map_of (Clients (Serv st)) n of Some c \<Rightarrow> True | None \<Rightarrow> False)"

definition roomExists :: "world \<Rightarrow> string \<Rightarrow> bool" where
  "roomExists st roomname = (case map_of (Rooms (Serv st)) roomname of Some r \<Rightarrow> True | None \<Rightarrow> False)"

text \<open>The member map of the room a name points to (no members when there is no such room).\<close>

definition membersOf :: "world \<Rightarrow> string \<Rightarrow> (string \<times> cid) list" where
  "membersOf st roomname =
     (case map_of (Rooms (Serv st)) roomname of Some r \<Rightarrow> RoomClients r | None \<Rightarrow> [])"

text \<open>An assignment through a room pointer: \<open>f\<close> applied to the member map of that room.\<close>

definition onRoom :: "string \<Rightarrow> ((string \<times> cid) list \<Rightarrow> (string \<times> cid) list) \<Rightarrow> world \<Rightarrow> world" where
  "onRoom roomname f st =
     st\<lparr>Serv := (Serv st)\<lparr>Rooms :=
        AList.map_entry roomname (\<lambda>r. r\<lparr>RoomClients := f (RoomClients r)\<rparr>) (Rooms (Serv st))\<rparr>\<rparr>"

definition onClients :: "((string \<times> cid) list \<Rightarrow> (string \<times> cid) list) \<Rightarrow> world \<Rightarrow> world" where
  "onClients f st = st\<lparr>Serv := (Serv st)\<lparr>Clients := f (Clients (Serv st))\<rparr>\<rparr>"

definition addClient :: "cid \<Rightarrow> world \<Rightarrow> error option \<times> world" where
  "addClient cl st =
     (if \<not> clientExists st (Nick st cl)
      then (None, onClients (AList.update (Nick st cl) cl) st)
      else (Some ClientAlreadyExists, st))"

definition createRoom :: "string \<Rightarrow> world \<Rightarrow> world" where
  "createRoom roomname st =
     st\<lparr>Serv := (Serv st)\<lparr>Rooms :=
        AList.update roomname \<lparr>RoomClients = []\<rparr> (Rooms (Serv st))\<rparr>\<rparr>"

text \<open>
  \<open>findRoom\<close> ranges over the rooms and returns the first one whose member map has the
  client's nickname as a key (it does not look at the client the key maps to).
\<close>

fun findRoomIn :: "(string \<times> Room) list \<Rightarrow> string \<Rightarrow> string option" where
  "findRoomIn [] n = None"
| "findRoomIn ((roomname, r) # rs) n =
     (case map_of (RoomClients r) n of
        Some c \<Rightarrow> Some roomname
      | None \<Rightarrow> findRoomIn rs n)"

definition findRoom :: "world \<Rightarrow> cid \<Rightarrow> error + string" where
  "findRoom st cl =
     (case findRoomIn (Rooms (Serv st)) (Nick st cl) of
        Some r \<Rightarrow> Inr r
      | None \<Rightarrow> Inl (NoRoom (Nick st cl)))"

definition tryDeleteFromRoom :: "cid \<Rightarrow> world \<Rightarrow> world" where
  "tryDeleteFromRoom cl st =
     (case findRoom st cl of
        Inr r \<Rightarrow> onRoom r (AList.delete (Nick st cl)) st
      | Inl e \<Rightarrow> st)"

definition joinRoom :: "string \<Rightarrow> cid \<Rightarrow> world \<Rightarrow> error option \<times> world" where
  "joinRoom roomname cl st =
     (let st1 = (if \<not> roomExists st roomname then createRoom roomname st else st);
          st2 = onRoom roomname (AList.update (Nick st1 cl) cl) st1
      in addClient cl st2)"

subsection \<open>Server: the exported methods\<close>

definition CloseClient :: "cid \<Rightarrow> world \<Rightarrow> world" where
  "CloseClient cl st =
     (let st1 = st\<lparr>heap := (heap st)(cl := (heap st cl)\<lparr>closed := True\<rparr>)\<rparr>
      in onClients (AList.delete (Nick st1 cl)) st1)"

definition ChangeNick :: "string \<Rightarrow> string \<Rightarrow> world \<Rightarrow> error option \<times> world" where
  "ChangeNick from to st =
     (if clientExists st to then (Some (UserExists to), st)
      else case map_of (Clients (Serv st)) from of
        Some cl \<Rightarrow>
          (case findRoom st cl of
             Inl err \<Rightarrow> (Some err, st)
           | Inr r \<Rightarrow>
               (let st1 = onRoom r (AList.delete from) st;
                    st2 = onClients (AList.delete from) st1;
                    st3 = st2\<lparr>heap := (heap st2)(cl := (heap st2 cl)\<lparr>nick := to\<rparr>)\<rparr>;
                    st4 = onRoom r (AList.update to cl) st3;
                    st5 = onClients (AList.update to cl) st4
                in (None, st5)))
      | None \<Rightarrow> (Some (UserNotExists to), st))"

text \<open>
  \<open>Message\<close> and \<open>Blast\<close> read the clock; \<open>now\<close> is \<open>time.Now().Format(time.RFC3339)\<close>.
  The line is built word by word, then trimmed and ended with CR LF for every receiver.
\<close>

definition deliver :: "string \<Rightarrow> (string \<times> cid) list \<Rightarrow> world \<Rightarrow> world" where
  "deliver msg m st = fold (\<lambda>(n, c). Write c (TrimSpace msg @ CRLF)) m st"

definition Message :: "string \<Rightarrow> string list \<Rightarrow> cid \<Rightarrow> world \<Rightarrow> error option \<times> world" where
  "Message now inputs cl st =
     (let msg0 = ''['' @ now @ '':'' @ Nick st cl @ '']'';
          msg1 = foldl (\<lambda>msg v. msg @ '' '' @ v) msg0 inputs;
          msg = msg1 @ CRLF
      in case findRoom st cl of
           Inl err \<Rightarrow> (Some err, st)
         | Inr r \<Rightarrow> (None, deliver msg (membersOf st r) st))"

text \<open>
  \<open>Blast\<close> slices \<open>inputs[1:]\<close>, which panics on an empty slice: \<open>None\<close> is that panic, raised
  before anything is written.
\<close>

definition Blast :: "string \<Rightarrow> string list \<Rightarrow> cid \<Rightarrow> world \<Rightarrow> world option" where
  "Blast now inputs cl st =
     (let msg0 = ''['' @ now @ '':'' @ Nick st cl @ '']''
      in case inputs of
           [] \<Rightarrow> None
         | first # rest \<Rightarrow>
             (let msg1 = foldl (\<lambda>msg v. msg @ '' '' @ v) msg0 rest;
                  msg = msg1 @ CRLF
              in Some (deliver msg (Clients (Serv st)) st)))"

definition JoinRoom :: "string \<Rightarrow> cid \<Rightarrow> world \<Rightarrow> error option \<times> world" where
  "JoinRoom roomname cl st = joinRoom roomname cl (tryDeleteFromRoom cl st)"

subsection \<open>The session driver: one line of input\<close>


section \<open>What the properties speak of\<close>

subsection \<open>Words and the formatted line\<close>

text \<open>
  A word is what \<open>strings.Fields\<close> yields: a non-empty string in which no white space
  character starts. The formatted line of the registry: the tag with the clock and the
  sender's nickname in brackets, then every word after one space, then CR LF.
\<close>

fun noSpace :: "string \<Rightarrow> bool" where
  "noSpace [] = True"
| "noSpace (c # cs) = (spaceLen (c # cs) = 0 \<and> noSpace cs)"

definition word :: "string \<Rightarrow> bool" where
  "word w = (w \<noteq> [] \<and> noSpace w)"

definition formatted :: "string \<Rightarrow> string \<Rightarrow> string list \<Rightarrow> string" where
  "formatted now n ws = ''['' @ now @ '':'' @ n @ '']'' @ concat (map (\<lambda>w. '' '' @ w) ws) @ CRLF"

subsection \<open>The invariant of the registry\<close>

text \<open>
  The invariant, as a test on a store: the three association lists are maps (no key
  twice); every entry of a room's member map is an entry of the flat index, under the same
  nickname; every entry of the flat index is an entry of some room's member map, under the
  same nickname, and its key is the current nickname of the client; and no client has
  entries in two rooms.
\<close>

definition registryInv :: "world \<Rightarrow> bool" where
  "registryInv st \<longleftrightarrow>
     distinct (map fst (Rooms (Serv st)))
     \<and> (\<forall>(roomname, r) \<in> set (Rooms (Serv st)). distinct (map fst (RoomClients r)))
     \<and> distinct (map fst (Clients (Serv st)))
     \<and> (\<forall>(roomname, r) \<in> set (Rooms (Serv st)). \<forall>(n, c) \<in> set (RoomClients r).
           (n, c) \<in> set (Clients (Serv st)))
     \<and> (\<forall>(n, c) \<in> set (Clients (Serv st)).
           Nick st c = n
           \<and> (\<exists>(roomname, r) \<in> set (Rooms (Serv st)). (n, c) \<in> set (RoomClients r)))
     \<and> (\<forall>(roomname1, r1) \<in> set (Rooms (Serv st)). \<forall>(roomname2, r2) \<in> set (Rooms (Serv st)).
          \<forall>(n1, c1) \<in> set (RoomClients r1). \<forall>(n2, c2) \<in> set (RoomClients r2).
            c1 = c2 \<longrightarrow> roomname1 = roomname2)"

text \<open>
  The same in two parts. \<open>wellFormed\<close>: the lists are maps. \<open>coherent\<close>: the rest, on the maps
  the lists stand for, where \<open>M r n\<close> is the client the room \<open>r\<close> has under the nickname \<open>n\<close>,
  \<open>X n\<close> the client the flat index has under \<open>n\<close>, and \<open>N c\<close> the nickname of the client \<open>c\<close>.
\<close>

definition wellFormed :: "world \<Rightarrow> bool" where
  "wellFormed st \<longleftrightarrow>
     distinct (map fst (Rooms (Serv st)))
     \<and> (\<forall>r. distinct (map fst (membersOf st r)))
     \<and> distinct (map fst (Clients (Serv st)))"

definition coherent ::
  "(string \<Rightarrow> string \<rightharpoonup> cid) \<Rightarrow> (string \<rightharpoonup> cid) \<Rightarrow> (cid \<Rightarrow> string) \<Rightarrow> bool" where
  "coherent M X N \<longleftrightarrow>
     (\<forall>r n c. M r n = Some c \<longrightarrow> X n = Some c)
     \<and> (\<forall>n c. X n = Some c \<longrightarrow> N c = n \<and> (\<exists>r. M r n = Some c))
     \<and> (\<forall>r1 r2 n1 n2 c. M r1 n1 = Some c \<and> M r2 n2 = Some c \<longrightarrow> r1 = r2)"

subsection \<open>Stores used in the examples\<close>

text \<open>
  Client objects at the addresses 0, 1, 2, ..., named as \<open>initClient\<close> names a new
  connection (\<open>user\<close> and a number), on an empty server. The first and the second client
  join the default room, as \<open>initClient\<close> has them do (\<open>worldA\<close>, \<open>worldAB\<close>).
\<close>

definition store0 :: "cid \<Rightarrow> Client" where
  "store0 i = \<lparr>nick = (if i = 0 then ''user1'' else if i = 1 then ''user2'' else ''user3''),
                Conn = [], closed = False\<rparr>"

definition world0 :: world where
  "world0 = \<lparr>Serv = NewServer, heap = store0\<rparr>"

definition worldA :: world where
  "worldA = snd (JoinRoom DefaultRoom 0 world0)"

definition worldAB :: world where
  "worldAB = snd (JoinRoom DefaultRoom 1 worldA)"

text \<open>
  Then the second client moves to the room \<open>r2\<close> (\<open>worldB2\<close>), the first client quits
  (\<open>worldQ\<close>), and the second client takes the nickname the first one had (\<open>ghostW\<close>). These
  are the commands \<open>/room r2\<close>, \<open>/quit\<close> and \<open>/nick user1\<close>. Where a range over the rooms
  matters, it takes the rooms in the order they were made: the default room first.
\<close>

definition worldB2 :: world where
  "worldB2 = snd (JoinRoom ''r2'' 1 worldAB)"

definition worldQ :: world where
  "worldQ = CloseClient 0 worldB2"

definition ghostW :: world where
  "ghostW = snd (ChangeNick ''user2'' ''user1'' worldQ)"

text \<open>
  Another run from \<open>worldAB\<close>, with both clients in the default room. The first client sends
  \<open>/quit\<close> and \<open>/room x\<close> at once, so that both lines are in its buffer; \<open>/quit\<close> is served
  (\<open>worldL\<close>), then the second client's \<open>/nick user1\<close> (\<open>worldT\<close>), then the buffered \<open>/room x\<close>
  of the first client (\<open>seatless\<close>). Now the flat index has the second client under \<open>user1\<close>,
  and no room has the second client in its member map.
\<close>

definition worldL :: world where
  "worldL = CloseClient 0 worldAB"

definition worldT :: world where
  "worldT = snd (ChangeNick ''user2'' ''user1'' worldL)"

definition seatless :: world where
  "seatless = snd (JoinRoom ''x'' 0 worldT)"

section \<open>Lemmas\<close>

subsection \<open>What each step leaves alone, and the member maps after a join\<close>

lemma heap_onRoom [simp]: "heap (onRoom r f st) = heap st"
  by (simp add: onRoom_def)

lemma heap_onClients [simp]: "heap (onClients f st) = heap st"
  by (simp add: onClients_def)

lemma heap_createRoom [simp]: "heap (createRoom r st) = heap st"
  by (simp add: createRoom_def)

lemma Nick_onRoom [simp]: "Nick (onRoom r f st) c = Nick st c"
  by (simp add: Nick_def)

lemma Nick_onClients [simp]: "Nick (onClients f st) c = Nick st c"
  by (simp add: Nick_def)

lemma Nick_createRoom [simp]: "Nick (createRoom r st) c = Nick st c"
  by (simp add: Nick_def)

lemma Clients_onRoom [simp]: "Clients (Serv (onRoom r f st)) = Clients (Serv st)"
  by (simp add: onRoom_def)

lemma Clients_createRoom [simp]: "Clients (Serv (createRoom r st)) = Clients (Serv st)"
  by (simp add: createRoom_def)

lemma Clients_onClients [simp]: "Clients (Serv (onClients f st)) = f (Clients (Serv st))"
  by (simp add: onClients_def)

lemma Rooms_onClients [simp]: "Rooms (Serv (onClients f st)) = Rooms (Serv st)"
  by (simp add: onClients_def)

lemma Rooms_onRoom:
  "Rooms (Serv (onRoom r f st)) =
     AList.map_entry r (\<lambda>x. x\<lparr>RoomClients := f (RoomClients x)\<rparr>) (Rooms (Serv st))"
  by (simp add: onRoom_def)

lemma Rooms_createRoom:
  "Rooms (Serv (createRoom r st)) = AList.update r \<lparr>RoomClients = []\<rparr> (Rooms (Serv st))"
  by (simp add: createRoom_def)

lemma clientExists_iff: "clientExists st n \<longleftrightarrow> n \<in> fst ` set (Clients (Serv st))"
  using map_of_eq_None_iff [of "Clients (Serv st)" n]
  by (auto simp: clientExists_def split: option.splits)

lemma roomExists_iff: "roomExists st r \<longleftrightarrow> r \<in> fst ` set (Rooms (Serv st))"
  using map_of_eq_None_iff [of "Rooms (Serv st)" r]
  by (auto simp: roomExists_def split: option.splits)

lemma clientExists_onRoom [simp]: "clientExists (onRoom r f st) n = clientExists st n"
  by (simp add: clientExists_def)

lemma clientExists_createRoom [simp]: "clientExists (createRoom r st) n = clientExists st n"
  by (simp add: clientExists_def)

lemma tryDeleteFromRoom_heap [simp]: "heap (tryDeleteFromRoom cl st) = heap st"
  by (simp add: tryDeleteFromRoom_def split: sum.splits)

lemma tryDeleteFromRoom_Nick [simp]: "Nick (tryDeleteFromRoom cl st) c = Nick st c"
  by (simp add: Nick_def)

lemma tryDeleteFromRoom_Clients [simp]:
  "Clients (Serv (tryDeleteFromRoom cl st)) = Clients (Serv st)"
  by (simp add: tryDeleteFromRoom_def split: sum.splits)

lemma tryDeleteFromRoom_clientExists [simp]:
  "clientExists (tryDeleteFromRoom cl st) n = clientExists st n"
  by (simp add: clientExists_def)

lemma JoinRoom_result:
  "fst (JoinRoom roomname cl st) =
     (if clientExists st (Nick st cl) then Some ClientAlreadyExists else None)"
  by (simp add: JoinRoom_def joinRoom_def addClient_def Let_def)

lemma findRoomIn_None:
  "findRoomIn rs n = None \<longleftrightarrow> (\<forall>(roomname, r) \<in> set rs. n \<notin> fst ` set (RoomClients r))"
  by (induction rs n rule: findRoomIn.induct)
     (auto simp: map_of_eq_None_iff [symmetric] split: option.splits)

lemma membersOf_onClients [simp]: "membersOf (onClients f st) r = membersOf st r"
  by (simp add: membersOf_def)

lemma roomExists_onClients [simp]: "roomExists (onClients f st) r = roomExists st r"
  by (simp add: roomExists_def)

lemma roomExists_onRoom [simp]: "roomExists (onRoom r f st) r' = roomExists st r'"
  by (simp add: roomExists_iff Rooms_onRoom dom_map_entry)

lemma roomExists_createRoom [simp]:
  "roomExists (createRoom r st) r' \<longleftrightarrow> r' = r \<or> roomExists st r'"
  by (auto simp: roomExists_iff Rooms_createRoom dom_update)

lemma membersOf_onRoom:
  "membersOf (onRoom r f st) r' =
     (if r' = r \<and> roomExists st r then f (membersOf st r) else membersOf st r')"
  by (auto simp: membersOf_def roomExists_def Rooms_onRoom map_of_map_entry split: option.splits)

lemma membersOf_createRoom:
  "membersOf (createRoom r st) r' = (if r' = r then [] else membersOf st r')"
  by (simp add: membersOf_def Rooms_createRoom update_conv')

lemma membersOf_no_room: "\<not> roomExists st r \<Longrightarrow> membersOf st r = []"
  by (simp add: membersOf_def roomExists_def split: option.splits)

lemma findRoomIn_Some_in:
  "findRoomIn rs n = Some p \<Longrightarrow> p \<in> fst ` set rs"
  by (induction rs n rule: findRoomIn.induct) (auto split: option.splits)

lemma findRoomIn_Some_member:
  "distinct (map fst rs) \<Longrightarrow> findRoomIn rs n = Some p \<Longrightarrow>
     \<exists>r. map_of rs p = Some r \<and> map_of (RoomClients r) n \<noteq> None"
proof (induction rs n rule: findRoomIn.induct)
  case (1 n)
  then show ?case by simp
next
  case (2 roomname r rs n)
  show ?case
  proof (cases "map_of (RoomClients r) n")
    case None
    with 2 have f: "findRoomIn rs n = Some p" and d: "distinct (map fst rs)" by simp_all
    from f have "p \<in> fst ` set rs" by (rule findRoomIn_Some_in)
    with 2(2) have "p \<noteq> roomname" by auto
    with 2(1) [OF None d f] show ?thesis by simp
  next
    case (Some c)
    with 2 show ?thesis by simp
  qed
qed

lemma findRoom_roomExists: "findRoom st cl = Inr p \<Longrightarrow> roomExists st p"
  by (auto simp: findRoom_def roomExists_iff dest: findRoomIn_Some_in split: option.splits)

lemma findRoom_member:
  assumes "distinct (map fst (Rooms (Serv st)))" and "findRoom st cl = Inr p"
  shows "Nick st cl \<in> fst ` set (membersOf st p)"
proof -
  from assms(2) have "findRoomIn (Rooms (Serv st)) (Nick st cl) = Some p"
    by (simp add: findRoom_def split: option.splits)
  from findRoomIn_Some_member [OF assms(1) this]
  obtain r where "map_of (Rooms (Serv st)) p = Some r"
    and "map_of (RoomClients r) (Nick st cl) \<noteq> None" by blast
  then show ?thesis by (simp add: membersOf_def map_of_eq_None_iff)
qed

lemma membersOf_tryDeleteFromRoom:
  "membersOf (tryDeleteFromRoom cl st) r =
     (if findRoom st cl = Inr r then AList.delete (Nick st cl) (membersOf st r)
      else membersOf st r)"
  by (auto simp: tryDeleteFromRoom_def membersOf_onRoom findRoom_roomExists split: sum.splits)

lemma roomExists_tryDeleteFromRoom [simp]:
  "roomExists (tryDeleteFromRoom cl st) r = roomExists st r"
  by (simp add: tryDeleteFromRoom_def split: sum.splits)

lemma membersOf_addClient [simp]: "membersOf (snd (addClient cl st)) r = membersOf st r"
  by (simp add: addClient_def)

lemma membersOf_joinRoom:
  "membersOf (snd (joinRoom roomname cl st)) r =
     (if r = roomname then AList.update (Nick st cl) cl (membersOf st roomname)
      else membersOf st r)"
  by (auto simp: joinRoom_def Let_def membersOf_onRoom membersOf_createRoom membersOf_no_room)

lemma membersOf_JoinRoom:
  "membersOf (snd (JoinRoom roomname cl st)) r =
     (if r = roomname
      then AList.update (Nick st cl) cl
             (if findRoom st cl = Inr roomname
              then AList.delete (Nick st cl) (membersOf st roomname)
              else membersOf st roomname)
      else if findRoom st cl = Inr r then AList.delete (Nick st cl) (membersOf st r)
      else membersOf st r)"
  by (simp add: JoinRoom_def membersOf_joinRoom membersOf_tryDeleteFromRoom)

lemma Clients_JoinRoom:
  "Clients (Serv (snd (JoinRoom roomname cl st))) =
     (if clientExists st (Nick st cl) then Clients (Serv st)
      else AList.update (Nick st cl) cl (Clients (Serv st)))"
  by (simp add: JoinRoom_def joinRoom_def addClient_def Let_def)

lemma heap_JoinRoom [simp]: "heap (snd (JoinRoom roomname cl st)) = heap st"
  by (simp add: JoinRoom_def joinRoom_def addClient_def Let_def)

subsection \<open>The example stores, evaluated\<close>


lemma heap_worldA: "heap worldA = store0"
  by (simp add: worldA_def world0_def)

lemma Serv_worldAB:
  "Serv worldAB =
     \<lparr>Rooms = [(DefaultRoom, \<lparr>RoomClients = [(''user1'', 0), (''user2'', 1)]\<rparr>)],
      Clients = [(''user1'', 0), (''user2'', 1)]\<rparr>"
  by code_simp

lemma heap_worldAB: "heap worldAB = store0"
  by (simp add: worldAB_def heap_worldA)

subsection \<open>Writes and deliveries\<close>

lemma Serv_Write [simp]: "Serv (Write c s st) = Serv st"
  by (simp add: Write_def)

lemma Conn_Write: "Conn (heap (Write c s st) c') = (if c' = c then Conn (heap st c) @ [s] else Conn (heap st c'))"
  by (simp add: Write_def)

lemma nick_Write [simp]: "nick (heap (Write c s st) c') = nick (heap st c')"
  by (simp add: Write_def)

lemma closed_Write [simp]: "closed (heap (Write c s st) c') = closed (heap st c')"
  by (simp add: Write_def)

lemma deliver_Nil: "deliver msg [] st = st"
  by (simp add: deliver_def)

lemma deliver_Cons:
  "deliver msg ((n, c) # m) st = deliver msg m (Write c (TrimSpace msg @ CRLF) st)"
  by (simp add: deliver_def)

lemma Serv_deliver [simp]: "Serv (deliver msg m st) = Serv st"
proof (induction m arbitrary: st)
  case Nil
  show ?case by (simp add: deliver_Nil)
next
  case (Cons p m)
  obtain n c where p: "p = (n, c)" by (cases p)
  show ?case unfolding p deliver_Cons Cons.IH by simp
qed

lemma nick_deliver [simp]: "nick (heap (deliver msg m st) c) = nick (heap st c)"
proof (induction m arbitrary: st)
  case Nil
  show ?case by (simp add: deliver_Nil)
next
  case (Cons p m)
  obtain n c' where p: "p = (n, c')" by (cases p)
  show ?case unfolding p deliver_Cons Cons.IH by simp
qed

lemma closed_deliver [simp]: "closed (heap (deliver msg m st) c) = closed (heap st c)"
proof (induction m arbitrary: st)
  case Nil
  show ?case by (simp add: deliver_Nil)
next
  case (Cons p m)
  obtain n c' where p: "p = (n, c')" by (cases p)
  show ?case unfolding p deliver_Cons Cons.IH by simp
qed

lemma Conn_deliver:
  "Conn (heap (deliver msg m st) c) =
     Conn (heap st c) @ replicate (count_list (map snd m) c) (TrimSpace msg @ CRLF)"
proof (induction m arbitrary: st)
  case Nil
  show ?case by (simp add: deliver_Nil)
next
  case (Cons p m)
  obtain n c' where p: "p = (n, c')" by (cases p)
  show ?case
    unfolding p deliver_Cons Cons.IH
    by (simp add: Conn_Write)
qed

subsection \<open>White space at the ends of the line\<close>

lemma foldl_words:
  "foldl (\<lambda>msg v. msg @ '' '' @ v) msg0 ws = msg0 @ concat (map (\<lambda>w. '' '' @ w) ws)"
  by (induction ws arbitrary: msg0) simp_all

lemma spaceToks_space: "t \<in> set spaceToks \<Longrightarrow> CHR '' '' \<in> set t \<Longrightarrow> t = '' ''"
  by (auto simp: spaceToks_def)

lemma spaceToks_bracket: "t \<in> set spaceToks \<Longrightarrow> CHR '']'' \<notin> set t \<and> CHR ''['' \<notin> set t"
  by (auto simp: spaceToks_def)

lemma spaceToks_nonempty: "t \<in> set spaceToks \<Longrightarrow> t \<noteq> []"
  by (auto simp: spaceToks_def)

lemma spaceLen_0_iff: "spaceLen s = 0 \<longleftrightarrow> (\<forall>t \<in> set spaceToks. \<not> prefix t s)"
  by (auto simp: spaceLen_def find_None_iff find_Some_iff spaceToks_nonempty split: option.splits)

lemma spaceLenLast_0_iff: "spaceLenLast s = 0 \<longleftrightarrow> (\<forall>t \<in> set spaceToks. \<not> suffix t s)"
  by (auto simp: spaceLenLast_def find_None_iff find_Some_iff spaceToks_nonempty split: option.splits)

lemma noSpace_suffix: "noSpace w \<Longrightarrow> suffix v w \<Longrightarrow> v \<noteq> [] \<Longrightarrow> spaceLen v = 0"
  by (induction w) (auto simp: suffix_Cons)

lemma spaceLenLast_word:
  assumes "word w"
  shows "spaceLenLast (xs @ CHR '' '' # w) = 0"
proof -
  from assms have w: "w \<noteq> []" and ns: "noSpace w" by (simp_all add: word_def)
  have "\<not> suffix t (xs @ CHR '' '' # w)" if t: "t \<in> set spaceToks" for t
  proof
    assume "suffix t (xs @ CHR '' '' # w)"
    then have "suffix t (CHR '' '' # w) \<or> (\<exists>u. t = u @ CHR '' '' # w)"
      unfolding suffix_append by blast
    then have "suffix t w \<or> (\<exists>u. t = u @ CHR '' '' # w)"
      unfolding suffix_Cons by (metis append_Nil)
    then consider "suffix t w" | u where "t = u @ CHR '' '' # w"
      by blast
    then show False
    proof cases
      case 1
      from t have "t \<noteq> []" by (rule spaceToks_nonempty)
      with ns 1 have "spaceLen t = 0" by (rule noSpace_suffix)
      with t show False by (auto simp: spaceLen_0_iff)
    next
      case 2
      then have "CHR '' '' \<in> set t" by simp
      with t have "t = '' ''" by (rule spaceToks_space)
      with 2 w show False by (cases u) auto
    qed
  qed
  then show ?thesis by (simp add: spaceLenLast_0_iff)
qed

lemma spaceLenLast_bracket: "spaceLenLast (xs @ '']'') = 0"
proof -
  have "\<not> suffix t (xs @ '']'')" if t: "t \<in> set spaceToks" for t
  proof
    assume "suffix t (xs @ '']'')"
    moreover from t have "t \<noteq> []" by (rule spaceToks_nonempty)
    ultimately have "CHR '']'' \<in> set t"
      by (cases t rule: rev_cases) (auto simp: suffix_def)
    with spaceToks_bracket [OF t] show False by simp
  qed
  then show ?thesis by (simp add: spaceLenLast_0_iff)
qed

lemma spaceLen_bracket: "spaceLen (CHR ''['' # xs) = 0"
proof -
  have "\<not> prefix t (CHR ''['' # xs)" if t: "t \<in> set spaceToks" for t
  proof
    assume "prefix t (CHR ''['' # xs)"
    moreover from t have "t \<noteq> []" by (rule spaceToks_nonempty)
    ultimately have "CHR ''['' \<in> set t"
      by (cases t) (auto simp: prefix_def)
    with spaceToks_bracket [OF t] show False by simp
  qed
  then show ?thesis by (simp add: spaceLen_0_iff)
qed

lemma suffix_single_snoc: "suffix [c] (xs @ [d]) \<longleftrightarrow> c = d"
  using snoc_suffix_snoc [of "[]" c xs d] by simp

lemma spaceLenLast_LF: "spaceLenLast (xs @ [CHR 0x0A]) = 1"
proof -
  have "find (\<lambda>t. suffix t (xs @ [CHR 0x0A])) spaceToks = Some [CHR 0x0A]"
    by (simp add: spaceToks_def suffix_single_snoc)
  then show ?thesis by (simp add: spaceLenLast_def)
qed

lemma spaceLenLast_CR: "spaceLenLast (xs @ [CHR 0x0D]) = 1"
proof -
  have "find (\<lambda>t. suffix t (xs @ [CHR 0x0D])) spaceToks = Some [CHR 0x0D]"
    by (simp add: spaceToks_def suffix_single_snoc)
  then show ?thesis by (simp add: spaceLenLast_def)
qed

lemma trimRight_CRLF: "spaceLenLast body = 0 \<Longrightarrow> trimRight (body @ CRLF) = body"
proof -
  assume b: "spaceLenLast body = 0"
  have "trimRight (body @ CRLF) = trimRight ((body @ [CHR 0x0D]) @ [CHR 0x0A])"
    by (simp add: CRLF_def)
  also have "\<dots> = trimRight (body @ [CHR 0x0D])"
    by (subst trimRight.simps) (simp add: spaceLenLast_LF del: append_assoc)
  also have "\<dots> = trimRight body"
    by (subst trimRight.simps) (simp add: spaceLenLast_CR)
  also have "\<dots> = body"
    using b by (subst trimRight.simps) simp
  finally show ?thesis .
qed

lemma TrimSpace_line:
  assumes "list_all word ws"
  shows "TrimSpace (foldl (\<lambda>msg v. msg @ '' '' @ v) (''['' @ now @ '':'' @ n @ '']'') ws @ CRLF)
           @ CRLF = formatted now n ws"
proof -
  let ?tag = "''['' @ now @ '':'' @ n @ '']''"
  let ?body = "?tag @ concat (map (\<lambda>w. '' '' @ w) ws)"
  have left: "trimLeft (?body @ CRLF) = ?body @ CRLF"
    by (subst trimLeft.simps) (simp add: spaceLen_bracket)
  have last0: "spaceLenLast ?body = 0"
  proof (cases ws rule: rev_cases)
    case Nil
    have "spaceLenLast ((''['' @ now @ '':'' @ n) @ '']'') = 0" by (rule spaceLenLast_bracket)
    with Nil show ?thesis by simp
  next
    case (snoc vs w)
    with assms have "word w" by simp
    then have "spaceLenLast ((?tag @ concat (map (\<lambda>w. '' '' @ w) vs)) @ CHR '' '' # w) = 0"
      by (rule spaceLenLast_word)
    with snoc show ?thesis by simp
  qed
  have msg: "foldl (\<lambda>msg v. msg @ '' '' @ v) ?tag ws @ CRLF = ?body @ CRLF"
    by (simp only: foldl_words)
  have "TrimSpace (?body @ CRLF) = ?body"
    unfolding TrimSpace_def left by (rule trimRight_CRLF [OF last0])
  then have "TrimSpace (?body @ CRLF) @ CRLF = ?body @ CRLF"
    by (rule arg_cong)
  then show ?thesis
    unfolding msg formatted_def by (simp only: append_assoc)
qed

subsection \<open>Message and Blast, unfolded\<close>

lemma Message_found:
  assumes "findRoom st cl = Inr R"
  shows "Message now ws cl st =
    (None, deliver (foldl (\<lambda>msg v. msg @ '' '' @ v) (''['' @ now @ '':'' @ Nick st cl @ '']'') ws @ CRLF)
             (membersOf st R) st)"
  using assms by (simp add: Message_def Let_def)

lemma Message_not_found:
  assumes "findRoom st cl = Inl e"
  shows "Message now ws cl st = (Some e, st)"
  using assms by (simp add: Message_def Let_def)

lemma findRoom_Inl: "findRoom st cl = Inl e \<Longrightarrow> e = NoRoom (Nick st cl)"
  by (auto simp: findRoom_def split: option.splits)

lemma findRoom_Inl_iff:
  "(\<exists>e. findRoom st cl = Inl e) \<longleftrightarrow>
     (\<forall>(roomname, r) \<in> set (Rooms (Serv st)). Nick st cl \<notin> fst ` set (RoomClients r))"
  by (auto simp: findRoom_def findRoomIn_None [symmetric] split: option.splits)

lemma Blast_Cons:
  "Blast now (first # ws) cl st =
     Some (deliver (foldl (\<lambda>msg v. msg @ '' '' @ v) (''['' @ now @ '':'' @ Nick st cl @ '']'') ws @ CRLF)
             (Clients (Serv st)) st)"
  by (simp add: Blast_def Let_def)

lemma Conn_deliver_line:
  assumes "list_all word ws"
  shows "Conn (heap (deliver (foldl (\<lambda>msg v. msg @ '' '' @ v) (''['' @ now @ '':'' @ n @ '']'') ws @ CRLF) m st) c)
    = Conn (heap st c) @ replicate (count_list (map snd m) c) (formatted now n ws)"
  unfolding Conn_deliver TrimSpace_line [OF assms] ..

lemma count_list_distinct: "distinct xs \<Longrightarrow> x \<in> set xs \<Longrightarrow> count_list xs x = 1"
  by (induction xs) auto

subsection \<open>Fields yields words only\<close>





subsection \<open>The steps of the driver\<close>



lemma Conn_CloseClient [simp]: "Conn (heap (CloseClient cl st) c) = Conn (heap st c)"
  by (simp add: CloseClient_def Let_def)


lemma Clients_CloseClient:
  "Clients (Serv (CloseClient cl st)) = AList.delete (Nick st cl) (Clients (Serv st))"
  by (simp add: CloseClient_def Let_def Nick_def onClients_def)

lemma Rooms_CloseClient [simp]: "Rooms (Serv (CloseClient cl st)) = Rooms (Serv st)"
  by (simp add: CloseClient_def Let_def onClients_def)

subsection \<open>The effect of ChangeNick, and the room findRoom resolves\<close>

lemma membersOf_heap [simp]: "membersOf (st\<lparr>heap := h\<rparr>) r = membersOf st r"
  by (simp add: membersOf_def)

lemma roomExists_heap [simp]: "roomExists (st\<lparr>heap := h\<rparr>) r = roomExists st r"
  by (simp add: roomExists_def)

lemma map_fst_map_entry: "map fst (AList.map_entry k f xs) = map fst xs"
  by (induction xs) auto

lemma names_onRoom [simp]: "map fst (Rooms (Serv (onRoom r f st))) = map fst (Rooms (Serv st))"
  by (simp add: Rooms_onRoom map_fst_map_entry)

lemma ChangeNick_done:
  assumes "to \<notin> fst ` set (Clients (Serv st))"
    and "map_of (Clients (Serv st)) from = Some cl"
    and "findRoom st cl = Inr r"
  shows "ChangeNick from to st =
    (None,
     onClients (AList.update to cl)
       (onRoom r (AList.update to cl)
         ((onClients (AList.delete from) (onRoom r (AList.delete from) st))
            \<lparr>heap := (heap st)(cl := (heap st cl)\<lparr>nick := to\<rparr>)\<rparr>)))"
  using assms by (simp add: ChangeNick_def clientExists_iff Let_def)

lemma ChangeNick_fst:
  assumes "to \<notin> fst ` set (Clients (Serv st))"
    and "map_of (Clients (Serv st)) from = Some cl"
    and "findRoom st cl = Inr r"
  shows "fst (ChangeNick from to st) = None"
  by (simp add: ChangeNick_done [OF assms])

lemma ChangeNick_membersOf:
  assumes "to \<notin> fst ` set (Clients (Serv st))"
    and "map_of (Clients (Serv st)) from = Some cl"
    and "findRoom st cl = Inr r"
  shows "membersOf (snd (ChangeNick from to st)) r' =
    (if r' = r then AList.update to cl (AList.delete from (membersOf st r)) else membersOf st r')"
  using findRoom_roomExists [OF assms(3)]
  by (simp add: ChangeNick_done [OF assms] membersOf_onRoom)

lemma ChangeNick_Clients:
  assumes "to \<notin> fst ` set (Clients (Serv st))"
    and "map_of (Clients (Serv st)) from = Some cl"
    and "findRoom st cl = Inr r"
  shows "Clients (Serv (snd (ChangeNick from to st))) =
    AList.update to cl (AList.delete from (Clients (Serv st)))"
  by (simp add: ChangeNick_done [OF assms] onClients_def onRoom_def)

lemma ChangeNick_heap:
  assumes "to \<notin> fst ` set (Clients (Serv st))"
    and "map_of (Clients (Serv st)) from = Some cl"
    and "findRoom st cl = Inr r"
  shows "heap (snd (ChangeNick from to st)) = (heap st)(cl := (heap st cl)\<lparr>nick := to\<rparr>)"
  by (simp add: ChangeNick_done [OF assms])

lemma ChangeNick_names:
  "map fst (Rooms (Serv (snd (ChangeNick from to st)))) = map fst (Rooms (Serv st))"
  by (simp add: ChangeNick_def Let_def onClients_def onRoom_def map_fst_map_entry
      split: option.splits sum.splits)

lemma findRoomIn_unique:
  "distinct (map fst rs) \<Longrightarrow> map_of rs r = Some m0 \<Longrightarrow> n \<in> fst ` set (RoomClients m0) \<Longrightarrow>
   (\<forall>(roomname, m) \<in> set rs. roomname \<noteq> r \<longrightarrow> n \<notin> fst ` set (RoomClients m)) \<Longrightarrow>
   findRoomIn rs n = Some r"
proof (induction rs n rule: findRoomIn.induct)
  case (1 n)
  then show ?case by simp
next
  case (2 roomname m rs n)
  show ?case
  proof (cases "roomname = r")
    case True
    with 2(3,4) have "map_of (RoomClients m) n \<noteq> None"
      by (simp add: map_of_eq_None_iff)
    with True show ?thesis by auto
  next
    case False
    with 2(5) have "map_of (RoomClients m) n = None"
      by (simp add: map_of_eq_None_iff)
    moreover from 2(2,3,5) False have "distinct (map fst rs)" "map_of rs r = Some m0"
      "\<forall>(roomname, m) \<in> set rs. roomname \<noteq> r \<longrightarrow> n \<notin> fst ` set (RoomClients m)"
      by simp_all
    ultimately show ?thesis using 2(1) 2(4) by simp
  qed
qed

lemma findRoom_unique:
  assumes "distinct (map fst (Rooms (Serv st)))"
    and "Nick st cl \<in> fst ` set (membersOf st r)"
    and "\<forall>r'. r' \<noteq> r \<longrightarrow> Nick st cl \<notin> fst ` set (membersOf st r')"
  shows "findRoom st cl = Inr r"
proof -
  from assms(2) obtain m0 where m0: "map_of (Rooms (Serv st)) r = Some m0"
    by (cases "map_of (Rooms (Serv st)) r") (auto simp: membersOf_def)
  with assms(2) have k: "Nick st cl \<in> fst ` set (RoomClients m0)"
    by (simp add: membersOf_def)
  have "Nick st cl \<notin> fst ` set (RoomClients m)"
    if in_set: "(roomname, m) \<in> set (Rooms (Serv st))" and ne: "roomname \<noteq> r"
    for roomname m
  proof -
    from in_set assms(1) have "map_of (Rooms (Serv st)) roomname = Some m" by simp
    then have "membersOf st roomname = RoomClients m" by (simp add: membersOf_def)
    with assms(3) ne show ?thesis by metis
  qed
  then have "\<forall>(roomname, m) \<in> set (Rooms (Serv st)).
          roomname \<noteq> r \<longrightarrow> Nick st cl \<notin> fst ` set (RoomClients m)"
    by blast
  from findRoomIn_unique [OF assms(1) m0 k this] show ?thesis
    by (simp add: findRoom_def)
qed

lemma membersOf_in_Rooms:
  "n \<in> fst ` set (membersOf st r) \<Longrightarrow>
     \<exists>m. (r, m) \<in> set (Rooms (Serv st)) \<and> n \<in> fst ` set (RoomClients m)"
  by (cases "map_of (Rooms (Serv st)) r") (auto simp: membersOf_def dest: map_of_SomeD)

subsection \<open>The invariant on maps\<close>

lemma coherent_rename:
  assumes coh: "coherent M X N" and a: "X a = Some cl" and b: "X b = None" and r: "M r a = Some cl"
  shows "coherent (\<lambda>r'. if r' = r then ((M r)(a := None))(b \<mapsto> cl) else M r')
           ((X(a := None))(b \<mapsto> cl)) (N(cl := b))"
proof -
  from coh have 1: "\<And>r n c. M r n = Some c \<Longrightarrow> X n = Some c"
    and 2: "\<And>n c. X n = Some c \<Longrightarrow> N c = n"
    and 3: "\<And>n c. X n = Some c \<Longrightarrow> \<exists>r. M r n = Some c"
    and 4: "\<And>r1 r2 n1 n2 c. M r1 n1 = Some c \<Longrightarrow> M r2 n2 = Some c \<Longrightarrow> r1 = r2"
    unfolding coherent_def by blast+
  have ab: "a \<noteq> b" using a b by auto
  have Ncl: "N cl = a" using 2 [OF a] .
  have only: "n = a \<and> r' = r" if "M r' n = Some cl" for r' n
    using 1 [OF that] 2 4 [OF that r] Ncl by auto
  have nob: "M r' b = None" for r'
    using 1 [of r' b] b by (cases "M r' b") auto
  let ?M = "\<lambda>r'. if r' = r then ((M r)(a := None))(b \<mapsto> cl) else M r'"
  have old: "(c = cl \<and> r' = r \<and> k = b) \<or> (c \<noteq> cl \<and> k \<noteq> a \<and> k \<noteq> b \<and> M r' k = Some c)"
    if H: "?M r' k = Some c" for r' k c
  proof (cases "r' = r")
    case True
    show ?thesis
    proof (cases "k = b")
      case kb: True
      with H True show ?thesis by simp
    next
      case False
      with H True have ka: "k \<noteq> a" and m: "M r k = Some c"
        by (auto split: if_splits)
      from only [OF _] m ka have "c \<noteq> cl" by blast
      with True False ka m show ?thesis by simp
    qed
  next
    case False
    with H have m: "M r' k = Some c" by simp
    with only False have "c \<noteq> cl" by blast
    moreover from m nob [of r'] have "k \<noteq> b" by auto
    moreover have "k \<noteq> a"
    proof
      assume "k = a"
      with m 1 a have "c = cl" by fastforce
      with \<open>c \<noteq> cl\<close> show False by simp
    qed
    ultimately show ?thesis using m by simp
  qed
  show ?thesis
    unfolding coherent_def
  proof (intro conjI allI impI)
    fix r' n c
    assume "?M r' n = Some c"
    from old [OF this] show "((X(a := None))(b \<mapsto> cl)) n = Some c"
      using 1 by auto
  next
    fix n c
    assume x: "((X(a := None))(b \<mapsto> cl)) n = Some c"
    show "(N(cl := b)) c = n"
      using x 2 Ncl by (auto split: if_splits)
    show "\<exists>r'. ?M r' n = Some c"
    proof (cases "n = b")
      case True
      with x show ?thesis by (intro exI [of _ r]) simp
    next
      case False
      with x have na: "n \<noteq> a" and "X n = Some c" by (auto split: if_splits)
      from 3 [OF this(2)] obtain r' where "M r' n = Some c" ..
      with na False show ?thesis by (intro exI [of _ r']) auto
    qed
  next
    fix r1 r2 n1 n2 c
    assume "?M r1 n1 = Some c \<and> ?M r2 n2 = Some c"
    then have h1: "?M r1 n1 = Some c" and h2: "?M r2 n2 = Some c" by blast+
    from old [OF h1] old [OF h2] show "r1 = r2"
      using 4 by blast
  qed
qed

lemma coherent_join_new:
  assumes coh: "coherent M X N" and n: "X (N cl) = None"
  shows "coherent (\<lambda>r'. if r' = rn then (M rn)(N cl \<mapsto> cl) else M r') (X(N cl \<mapsto> cl)) N"
proof -
  from coh have 1: "\<And>r n c. M r n = Some c \<Longrightarrow> X n = Some c"
    and 2: "\<And>n c. X n = Some c \<Longrightarrow> N c = n"
    and 3: "\<And>n c. X n = Some c \<Longrightarrow> \<exists>r. M r n = Some c"
    and 4: "\<And>r1 r2 n1 n2 c. M r1 n1 = Some c \<Longrightarrow> M r2 n2 = Some c \<Longrightarrow> r1 = r2"
    unfolding coherent_def by blast+
  have nocl: "M r' k \<noteq> Some cl" for r' k
  proof
    assume "M r' k = Some cl"
    from 1 [OF this] 2 n show False by fastforce
  qed
  have nokey: "M r' (N cl) = None" for r'
    using 1 [of r' "N cl"] n by (cases "M r' (N cl)") auto
  show ?thesis
    unfolding coherent_def
  proof (intro conjI allI impI)
    fix r' k c
    assume "(if r' = rn then (M rn)(N cl \<mapsto> cl) else M r') k = Some c"
    then show "(X(N cl \<mapsto> cl)) k = Some c"
      using 1 nokey by (auto split: if_splits)
  next
    fix k c
    assume x: "(X(N cl \<mapsto> cl)) k = Some c"
    show "N c = k" using x 2 by (auto split: if_splits)
    show "\<exists>r'. (if r' = rn then (M rn)(N cl \<mapsto> cl) else M r') k = Some c"
    proof (cases "k = N cl")
      case True
      with x show ?thesis by (intro exI [of _ rn]) simp
    next
      case False
      with x have "X k = Some c" by simp
      from 3 [OF this] obtain r' where "M r' k = Some c" ..
      with False show ?thesis by (intro exI [of _ r']) auto
    qed
  next
    fix r1 r2 n1 n2 c
    assume "(if r1 = rn then (M rn)(N cl \<mapsto> cl) else M r1) n1 = Some c \<and>
            (if r2 = rn then (M rn)(N cl \<mapsto> cl) else M r2) n2 = Some c"
    then show "r1 = r2"
      using 4 nocl by (auto split: if_splits)
  qed
qed

lemma coherent_join_again:
  assumes coh: "coherent M X N" and n: "X (N cl) = Some cl" and p: "M p (N cl) \<noteq> None"
  shows "coherent
     (\<lambda>r'. if r' = rn then ((if p = rn then (M rn)(N cl := None) else M rn))(N cl \<mapsto> cl)
            else if r' = p then (M p)(N cl := None) else M r') X N"
proof -
  from coh have 1: "\<And>r n c. M r n = Some c \<Longrightarrow> X n = Some c"
    and 2: "\<And>n c. X n = Some c \<Longrightarrow> N c = n"
    and 3: "\<And>n c. X n = Some c \<Longrightarrow> \<exists>r. M r n = Some c"
    and 4: "\<And>r1 r2 n1 n2 c. M r1 n1 = Some c \<Longrightarrow> M r2 n2 = Some c \<Longrightarrow> r1 = r2"
    unfolding coherent_def by blast+
  from p obtain c0 where "M p (N cl) = Some c0" by auto
  with 1 [OF this] n have pcl: "M p (N cl) = Some cl" by simp
  have only: "k = N cl \<and> r' = p" if "M r' k = Some cl" for r' k
    using 1 [OF that] 2 4 [OF that pcl] by auto
  have key: "r' = p" if "M r' (N cl) = Some c" for r' c
  proof -
    from 1 [OF that] n have "c = cl" by simp
    with that only show ?thesis by blast
  qed
  let ?M = "\<lambda>r'. if r' = rn then ((if p = rn then (M rn)(N cl := None) else M rn))(N cl \<mapsto> cl)
            else if r' = p then (M p)(N cl := None) else M r'"
  have same: "?M r' k = M r' k" if "k \<noteq> N cl" for r' k
    using that by simp
  have old: "(c = cl \<and> r' = rn \<and> k = N cl) \<or> (c \<noteq> cl \<and> k \<noteq> N cl \<and> M r' k = Some c)"
    if H: "?M r' k = Some c" for r' k c
  proof (cases "k = N cl")
    case True
    show ?thesis
    proof (cases "r' = rn")
      case rn: True
      with H True show ?thesis by simp
    next
      case False
      show ?thesis
      proof (cases "r' = p")
        case True
        with H False \<open>k = N cl\<close> show ?thesis by simp
      next
        case np: False
        with H False True have "M r' (N cl) = Some c" by simp
        from key [OF this] np show ?thesis by simp
      qed
    qed
  next
    case False
    with H same have m: "M r' k = Some c" by simp
    with only False have "c \<noteq> cl" by blast
    with False m show ?thesis by simp
  qed
  show ?thesis
    unfolding coherent_def
  proof (intro conjI allI impI)
    fix r' k c
    assume "?M r' k = Some c"
    from old [OF this] show "X k = Some c"
      using 1 n by auto
  next
    fix k c
    assume x: "X k = Some c"
    show "N c = k" using x 2 by auto
    show "\<exists>r'. ?M r' k = Some c"
    proof (cases "k = N cl")
      case True
      with x n have "c = cl" by simp
      with True show ?thesis by (intro exI [of _ rn]) simp
    next
      case False
      from 3 [OF x] obtain r' where "M r' k = Some c" ..
      with same [OF False] show ?thesis by (intro exI [of _ r']) simp
    qed
  next
    fix r1 r2 n1 n2 c
    assume "?M r1 n1 = Some c \<and> ?M r2 n2 = Some c"
    then have h1: "?M r1 n1 = Some c" and h2: "?M r2 n2 = Some c" by blast+
    from old [OF h1] old [OF h2] show "r1 = r2"
      using 4 by blast
  qed
qed

subsection \<open>The invariant of a store, on its maps\<close>

lemma membersOf_in:
  assumes "distinct (map fst (Rooms (Serv st)))" and "(roomname, r) \<in> set (Rooms (Serv st))"
  shows "membersOf st roomname = RoomClients r"
  using assms by (simp add: membersOf_def)

lemma membersOf_cases:
  obtains "membersOf st roomname = []"
  | r where "(roomname, r) \<in> set (Rooms (Serv st))" "membersOf st roomname = RoomClients r"
  by (cases "map_of (Rooms (Serv st)) roomname") (auto simp: membersOf_def dest: map_of_SomeD)

lemma rooms_distinct_iff:
  assumes "distinct (map fst (Rooms (Serv st)))"
  shows "(\<forall>(roomname, r) \<in> set (Rooms (Serv st)). distinct (map fst (RoomClients r)))
     \<longleftrightarrow> (\<forall>r. distinct (map fst (membersOf st r)))"
proof
  assume L: "\<forall>(roomname, r) \<in> set (Rooms (Serv st)). distinct (map fst (RoomClients r))"
  show "\<forall>r. distinct (map fst (membersOf st r))"
  proof
    fix roomname
    show "distinct (map fst (membersOf st roomname))"
      by (rule membersOf_cases [of st roomname]) (use L in auto)
  qed
next
  assume R: "\<forall>r. distinct (map fst (membersOf st r))"
  show "\<forall>(roomname, r) \<in> set (Rooms (Serv st)). distinct (map fst (RoomClients r))"
  proof (clarify)
    fix roomname r
    assume "(roomname, r) \<in> set (Rooms (Serv st))"
    from membersOf_in [OF assms this] R show "distinct (map fst (RoomClients r))"
      by metis
  qed
qed

lemma seat_iff:
  assumes "wellFormed st"
  shows "map_of (membersOf st roomname) n = Some c
    \<longleftrightarrow> (\<exists>r. (roomname, r) \<in> set (Rooms (Serv st)) \<and> (n, c) \<in> set (RoomClients r))"
proof
  assume L: "map_of (membersOf st roomname) n = Some c"
  show "\<exists>r. (roomname, r) \<in> set (Rooms (Serv st)) \<and> (n, c) \<in> set (RoomClients r)"
    by (rule membersOf_cases [of st roomname]) (use L in \<open>auto dest: map_of_SomeD\<close>)
next
  assume "\<exists>r. (roomname, r) \<in> set (Rooms (Serv st)) \<and> (n, c) \<in> set (RoomClients r)"
  then obtain r where r: "(roomname, r) \<in> set (Rooms (Serv st))" and m: "(n, c) \<in> set (RoomClients r)"
    by blast
  from assms have d: "distinct (map fst (Rooms (Serv st)))" by (simp add: wellFormed_def)
  have eq: "membersOf st roomname = RoomClients r" by (rule membersOf_in [OF d r])
  from assms have "distinct (map fst (membersOf st roomname))" by (simp add: wellFormed_def)
  with m eq show "map_of (membersOf st roomname) n = Some c" by simp
qed

lemma listed_iff:
  assumes "wellFormed st"
  shows "map_of (Clients (Serv st)) n = Some c \<longleftrightarrow> (n, c) \<in> set (Clients (Serv st))"
  using assms by (simp add: wellFormed_def)

lemma registryInv_sets:
  "registryInv st \<longleftrightarrow>
     distinct (map fst (Rooms (Serv st)))
     \<and> (\<forall>(roomname, r) \<in> set (Rooms (Serv st)). distinct (map fst (RoomClients r)))
     \<and> distinct (map fst (Clients (Serv st)))
     \<and> (\<forall>roomname n c.
           (\<exists>r. (roomname, r) \<in> set (Rooms (Serv st)) \<and> (n, c) \<in> set (RoomClients r))
           \<longrightarrow> (n, c) \<in> set (Clients (Serv st)))
     \<and> (\<forall>n c. (n, c) \<in> set (Clients (Serv st)) \<longrightarrow>
           Nick st c = n
           \<and> (\<exists>roomname r. (roomname, r) \<in> set (Rooms (Serv st)) \<and> (n, c) \<in> set (RoomClients r)))
     \<and> (\<forall>roomname1 roomname2 n1 n2 c.
           (\<exists>r. (roomname1, r) \<in> set (Rooms (Serv st)) \<and> (n1, c) \<in> set (RoomClients r))
           \<and> (\<exists>r. (roomname2, r) \<in> set (Rooms (Serv st)) \<and> (n2, c) \<in> set (RoomClients r))
           \<longrightarrow> roomname1 = roomname2)"
  unfolding registryInv_def by (intro arg_cong2 [where f = "(\<and>)"] refl) blast+

lemma registryInv_iff:
  "registryInv st \<longleftrightarrow>
     wellFormed st
     \<and> coherent (\<lambda>r. map_of (membersOf st r)) (map_of (Clients (Serv st))) (Nick st)"
proof -
  have wf: "wellFormed st \<longleftrightarrow>
      distinct (map fst (Rooms (Serv st)))
      \<and> (\<forall>(roomname, r) \<in> set (Rooms (Serv st)). distinct (map fst (RoomClients r)))
      \<and> distinct (map fst (Clients (Serv st)))"
    unfolding wellFormed_def using rooms_distinct_iff [of st] by blast
  show ?thesis
  proof (cases "wellFormed st")
    case False
    then show ?thesis using wf by (auto simp: registryInv_sets)
  next
    case True
    show ?thesis
      unfolding registryInv_sets coherent_def
        seat_iff [OF True] listed_iff [OF True]
      using True wf by blast
  qed
qed

subsection \<open>The invariant, step by step\<close>

lemma registryInv_cong:
  assumes "Serv st' = Serv st" and "\<And>c. Nick st' c = Nick st c"
  shows "registryInv st' = registryInv st"
  unfolding registryInv_def assms ..

lemma Nick_deliver [simp]: "Nick (deliver msg m st) c = Nick st c"
  by (simp add: Nick_def)

lemma registryInv_Message: "registryInv (snd (Message now ws cl st)) = registryInv st"
proof (cases "findRoom st cl")
  case (Inl e)
  then show ?thesis by (simp add: Message_not_found)
next
  case (Inr R)
  show ?thesis
    by (rule registryInv_cong) (simp_all add: Message_found [OF Inr])
qed

lemma registryInv_Blast: "Blast now ws cl st = Some st' \<Longrightarrow> registryInv st' = registryInv st"
  by (cases ws) (auto simp: Blast_def Let_def intro!: registryInv_cong)

lemma wellFormed_ChangeNick:
  assumes "wellFormed st"
  shows "wellFormed (snd (ChangeNick a b st))"
proof (cases "fst (ChangeNick a b st)")
  case (Some e)
  then have "snd (ChangeNick a b st) = st"
    by (auto simp: ChangeNick_def Let_def split: if_splits option.splits sum.splits)
  with assms show ?thesis by simp
next
  case None
  then obtain cl r where h: "b \<notin> fst ` set (Clients (Serv st))"
    "map_of (Clients (Serv st)) a = Some cl" "findRoom st cl = Inr r"
    by (auto simp: ChangeNick_def clientExists_iff Let_def split: if_splits option.splits sum.splits)
  from assms show ?thesis
    unfolding wellFormed_def
    by (simp add: ChangeNick_names ChangeNick_membersOf [OF h] ChangeNick_Clients [OF h]
        distinct_update distinct_delete)
qed

lemma coherent_ChangeNick:
  assumes wf: "wellFormed st"
    and coh: "coherent (\<lambda>r. map_of (membersOf st r)) (map_of (Clients (Serv st))) (Nick st)"
  shows "coherent (\<lambda>r. map_of (membersOf (snd (ChangeNick a b st)) r))
           (map_of (Clients (Serv (snd (ChangeNick a b st))))) (Nick (snd (ChangeNick a b st)))"
proof (cases "fst (ChangeNick a b st)")
  case (Some e)
  then have "snd (ChangeNick a b st) = st"
    by (auto simp: ChangeNick_def Let_def split: if_splits option.splits sum.splits)
  with coh show ?thesis by simp
next
  case None
  then obtain cl r where h: "b \<notin> fst ` set (Clients (Serv st))"
    "map_of (Clients (Serv st)) a = Some cl" "findRoom st cl = Inr r"
    by (auto simp: ChangeNick_def clientExists_iff Let_def split: if_splits option.splits sum.splits)
  let ?M = "\<lambda>r. map_of (membersOf st r)" and ?X = "map_of (Clients (Serv st))"
  from coh h(2) have n: "Nick st cl = a"
    unfolding coherent_def by blast
  from wf have d: "distinct (map fst (Rooms (Serv st)))" by (simp add: wellFormed_def)
  from findRoom_member [OF d h(3)] n obtain c where c: "?M r a = Some c"
    by (cases "?M r a") (auto simp: map_of_eq_None_iff)
  with coh h(2) have ra: "?M r a = Some cl"
    unfolding coherent_def by fastforce
  from h(1) have xb: "?X b = None" by (simp add: map_of_eq_None_iff)
  have M': "(\<lambda>r'. map_of (membersOf (snd (ChangeNick a b st)) r'))
      = (\<lambda>r'. if r' = r then ((?M r)(a := None))(b \<mapsto> cl) else ?M r')"
    by (rule ext) (simp add: ChangeNick_membersOf [OF h] update_conv' delete_conv')
  have X': "map_of (Clients (Serv (snd (ChangeNick a b st)))) = (?X(a := None))(b \<mapsto> cl)"
    by (simp add: ChangeNick_Clients [OF h] update_conv' delete_conv')
  have N': "Nick (snd (ChangeNick a b st)) = (Nick st)(cl := b)"
    by (rule ext) (simp add: Nick_def ChangeNick_heap [OF h])
  show ?thesis
    unfolding M' X' N' by (rule coherent_rename [OF coh h(2) xb ra])
qed

lemma registryInv_ChangeNick:
  "registryInv st \<Longrightarrow> registryInv (snd (ChangeNick a b st))"
  unfolding registryInv_iff by (blast intro: wellFormed_ChangeNick coherent_ChangeNick)

lemma Rooms_addClient [simp]: "Rooms (Serv (snd (addClient cl st))) = Rooms (Serv st)"
  by (simp add: addClient_def)

lemma names_tryDeleteFromRoom [simp]:
  "map fst (Rooms (Serv (tryDeleteFromRoom cl st))) = map fst (Rooms (Serv st))"
  by (simp add: tryDeleteFromRoom_def split: sum.splits)

lemma names_JoinRoom:
  assumes "distinct (map fst (Rooms (Serv st)))"
  shows "distinct (map fst (Rooms (Serv (snd (JoinRoom roomname cl st)))))"
  using assms
  by (simp add: JoinRoom_def joinRoom_def Let_def Rooms_createRoom distinct_update)

lemma findRoom_Inl_members:
  assumes "findRoom st cl = Inl e"
  shows "Nick st cl \<notin> fst ` set (membersOf st r)"
proof -
  from assms have "findRoomIn (Rooms (Serv st)) (Nick st cl) = None"
    by (simp add: findRoom_def split: option.splits)
  then have "\<forall>(roomname, m) \<in> set (Rooms (Serv st)). Nick st cl \<notin> fst ` set (RoomClients m)"
    by (simp add: findRoomIn_None)
  then have all: "Nick st cl \<notin> fst ` set (RoomClients m)"
    if "(roomname, m) \<in> set (Rooms (Serv st))" for roomname m
    using that by blast
  show ?thesis
  proof (rule membersOf_cases [of st r])
    assume "membersOf st r = []"
    then show ?thesis by simp
  next
    fix m
    assume "(r, m) \<in> set (Rooms (Serv st))" and "membersOf st r = RoomClients m"
    with all show ?thesis by simp
  qed
qed

lemma wellFormed_JoinRoom:
  assumes "wellFormed st"
  shows "wellFormed (snd (JoinRoom roomname cl st))"
  using assms unfolding wellFormed_def
  by (simp add: names_JoinRoom membersOf_JoinRoom Clients_JoinRoom distinct_update distinct_delete)

lemma coherent_JoinRoom:
  assumes wf: "wellFormed st"
    and coh: "coherent (\<lambda>r. map_of (membersOf st r)) (map_of (Clients (Serv st))) (Nick st)"
    and own: "map_of (Clients (Serv st)) (Nick st cl) = None
              \<or> map_of (Clients (Serv st)) (Nick st cl) = Some cl"
  shows "coherent (\<lambda>r. map_of (membersOf (snd (JoinRoom roomname cl st)) r))
           (map_of (Clients (Serv (snd (JoinRoom roomname cl st)))))
           (Nick (snd (JoinRoom roomname cl st)))"
proof -
  let ?M = "\<lambda>r. map_of (membersOf st r)" and ?X = "map_of (Clients (Serv st))"
  let ?st' = "snd (JoinRoom roomname cl st)"
  from wf have d: "distinct (map fst (Rooms (Serv st)))" by (simp add: wellFormed_def)
  have N': "Nick ?st' = Nick st"
    by (rule ext) (simp add: Nick_def)
  from own show ?thesis
  proof
    assume x: "?X (Nick st cl) = None"
    have nf: "\<exists>e. findRoom st cl = Inl e"
    proof (cases "findRoom st cl")
      case (Inl e)
      then show ?thesis by blast
    next
      case (Inr p)
      from findRoom_member [OF d Inr] obtain c where "?M p (Nick st cl) = Some c"
        by (cases "?M p (Nick st cl)") (auto simp: map_of_eq_None_iff)
      with coh x show ?thesis unfolding coherent_def by fastforce
    qed
    from x have ne: "\<not> clientExists st (Nick st cl)"
      by (simp add: clientExists_def)
    have M': "(\<lambda>r. map_of (membersOf ?st' r))
        = (\<lambda>r. if r = roomname then (?M roomname)(Nick st cl \<mapsto> cl) else ?M r)"
      using nf by (intro ext) (auto simp: membersOf_JoinRoom update_conv')
    have X': "map_of (Clients (Serv ?st')) = ?X(Nick st cl \<mapsto> cl)"
      using ne by (simp add: Clients_JoinRoom update_conv')
    show ?thesis
      unfolding M' X' N' by (rule coherent_join_new [OF coh x])
  next
    assume x: "?X (Nick st cl) = Some cl"
    with coh obtain r0 where r0: "?M r0 (Nick st cl) = Some cl"
      unfolding coherent_def by blast
    obtain p where p: "findRoom st cl = Inr p"
    proof (cases "findRoom st cl")
      case (Inl e)
      from findRoom_Inl_members [OF this, of r0] r0 show ?thesis
        by (auto simp: map_of_eq_None_iff [symmetric])
    next
      case (Inr p)
      then show ?thesis by (rule that)
    qed
    from findRoom_member [OF d p] have pm: "?M p (Nick st cl) \<noteq> None"
      by (simp add: map_of_eq_None_iff)
    from x have ex: "clientExists st (Nick st cl)"
      by (simp add: clientExists_def)
    have M': "(\<lambda>r. map_of (membersOf ?st' r))
        = (\<lambda>r'. if r' = roomname
                 then ((if p = roomname then (?M roomname)(Nick st cl := None) else ?M roomname))
                        (Nick st cl \<mapsto> cl)
                 else if r' = p then (?M p)(Nick st cl := None) else ?M r')"
      using p by (intro ext) (auto simp: membersOf_JoinRoom update_conv' delete_conv')
    have X': "map_of (Clients (Serv ?st')) = ?X"
      using ex by (simp add: Clients_JoinRoom)
    show ?thesis
      unfolding M' X' N' by (rule coherent_join_again [OF coh x pm])
  qed
qed

lemma registryInv_JoinRoom:
  assumes "registryInv st"
    and "map_of (Clients (Serv st)) (Nick st cl) = None
         \<or> map_of (Clients (Serv st)) (Nick st cl) = Some cl"
  shows "registryInv (snd (JoinRoom roomname cl st))"
  using assms unfolding registryInv_iff
  by (blast intro: wellFormed_JoinRoom coherent_JoinRoom)

lemma Nick_CloseClient [simp]: "Nick (CloseClient cl st) c = Nick st c"
  by (simp add: CloseClient_def Let_def Nick_def)

lemma membersOf_CloseClient [simp]: "membersOf (CloseClient cl st) r = membersOf st r"
  by (simp add: membersOf_def)

lemma registryInv_CloseClient:
  assumes "registryInv st" and "Nick st cl \<in> fst ` set (Clients (Serv st))"
  shows "\<not> registryInv (CloseClient cl st)"
proof
  assume after: "registryInv (CloseClient cl st)"
  let ?M = "\<lambda>r. map_of (membersOf st r)" and ?X = "map_of (Clients (Serv st))"
  from assms(2) obtain c where "?X (Nick st cl) = Some c"
    by (cases "?X (Nick st cl)") (auto simp: map_of_eq_None_iff)
  with assms(1) obtain r where "?M r (Nick st cl) = Some c"
    unfolding registryInv_iff coherent_def by blast
  then have "map_of (membersOf (CloseClient cl st) r) (Nick st cl) = Some c"
    by simp
  with after have "map_of (Clients (Serv (CloseClient cl st))) (Nick st cl) = Some c"
    unfolding registryInv_iff coherent_def by blast
  then show False
    by (simp add: Clients_CloseClient delete_conv')
qed

subsection \<open>JoinRoom twice, for a client with one seat\<close>

lemma filter_key_distinct:
  "distinct (map fst m) \<Longrightarrow> map_of m n = Some c \<Longrightarrow> filter (\<lambda>(k, v). k = n) m = [(n, c)]"
proof (induction m)
  case Nil
  then show ?case by simp
next
  case (Cons p m)
  obtain k v where p: "p = (k, v)" by (cases p)
  show ?case
  proof (cases "k = n")
    case True
    with Cons.prems p have "n \<notin> fst ` set m" and "v = c" by auto
    then have "filter (\<lambda>(k, v). k = n) m = []"
      by (force simp: filter_empty_conv)
    with True p \<open>v = c\<close> show ?thesis by simp
  next
    case False
    with Cons p show ?thesis by simp
  qed
qed

lemma JoinRoom_seat:
  assumes d: "distinct (map fst (Rooms (Serv st)))"
    and single: "\<forall>r1 r2. Nick st cl \<in> fst ` set (membersOf st r1)
                   \<and> Nick st cl \<in> fst ` set (membersOf st r2) \<longrightarrow> r1 = r2"
  shows "Nick st cl \<in> fst ` set (membersOf (snd (JoinRoom roomname cl st)) r) \<longleftrightarrow> r = roomname"
proof (cases "r = roomname")
  case True
  then show ?thesis by (simp add: membersOf_JoinRoom dom_update)
next
  case False
  have "Nick st cl \<notin> fst ` set (membersOf (snd (JoinRoom roomname cl st)) r)"
  proof (cases "findRoom st cl")
    case (Inl e)
    from findRoom_Inl_members [OF this, of r] False Inl show ?thesis
      by (simp add: membersOf_JoinRoom)
  next
    case (Inr p)
    show ?thesis
    proof (cases "p = r")
      case True
      with Inr False show ?thesis by (simp add: membersOf_JoinRoom delete_notin_dom)
    next
      case np: False
      from findRoom_member [OF d Inr] single np
      have "Nick st cl \<notin> fst ` set (membersOf st r)" by blast
      with Inr np False show ?thesis by (simp add: membersOf_JoinRoom)
    qed
  qed
  with False show ?thesis by simp
qed

text \<open>
  Where the client's nickname is a key of at most one room before the two calls, they are
  idempotent: after the first and after the second call \<open>findRoom\<close> resolves the target room,
  every room's member map is the same map after the second call as after the first, the
  target room has exactly one entry under the nickname, which maps to the client, and the
  flat index is the same.
\<close>

lemma JoinRoom_twice_single_seat:
  assumes wf: "wellFormed st"
    and single: "\<forall>r1 r2. Nick st cl \<in> fst ` set (membersOf st r1)
                   \<and> Nick st cl \<in> fst ` set (membersOf st r2) \<longrightarrow> r1 = r2"
  shows "findRoom (snd (JoinRoom roomname cl st)) cl = Inr roomname
    \<and> findRoom (snd (JoinRoom roomname cl (snd (JoinRoom roomname cl st)))) cl = Inr roomname
    \<and> (\<forall>r. map_of (membersOf (snd (JoinRoom roomname cl (snd (JoinRoom roomname cl st)))) r)
              = map_of (membersOf (snd (JoinRoom roomname cl st)) r))
    \<and> filter (\<lambda>(k, v). k = Nick st cl)
          (membersOf (snd (JoinRoom roomname cl (snd (JoinRoom roomname cl st)))) roomname)
        = [(Nick st cl, cl)]
    \<and> Clients (Serv (snd (JoinRoom roomname cl (snd (JoinRoom roomname cl st)))))
        = Clients (Serv (snd (JoinRoom roomname cl st)))"
proof -
  define st1 where "st1 = snd (JoinRoom roomname cl st)"
  define st2 where "st2 = snd (JoinRoom roomname cl st1)"
  from wf have d: "distinct (map fst (Rooms (Serv st)))" by (simp add: wellFormed_def)
  have wf1: "wellFormed st1" unfolding st1_def by (rule wellFormed_JoinRoom [OF wf])
  then have d1: "distinct (map fst (Rooms (Serv st1)))" by (simp add: wellFormed_def)
  have wf2: "wellFormed st2" unfolding st2_def by (rule wellFormed_JoinRoom [OF wf1])
  have n1: "Nick st1 cl = Nick st cl" by (simp add: st1_def Nick_def)
  have n2: "Nick st2 cl = Nick st cl" by (simp add: st2_def st1_def Nick_def)
  have seat1: "Nick st cl \<in> fst ` set (membersOf st1 r) \<longleftrightarrow> r = roomname" for r
    unfolding st1_def by (rule JoinRoom_seat [OF d single])
  have f1: "findRoom st1 cl = Inr roomname"
    by (rule findRoom_unique [OF d1]) (simp_all add: n1 seat1)
  have single1: "\<forall>r1 r2. Nick st1 cl \<in> fst ` set (membersOf st1 r1)
                   \<and> Nick st1 cl \<in> fst ` set (membersOf st1 r2) \<longrightarrow> r1 = r2"
    by (simp add: n1 seat1)
  have seat2: "Nick st cl \<in> fst ` set (membersOf st2 r) \<longleftrightarrow> r = roomname" for r
    using JoinRoom_seat [OF d1 single1, of roomname r] by (simp add: st2_def n1)
  have f2: "findRoom st2 cl = Inr roomname"
    using wf2 by (intro findRoom_unique) (simp_all add: n2 seat2 wellFormed_def)
  have here: "map_of (membersOf st1 roomname) (Nick st cl) = Some cl"
    by (simp add: st1_def membersOf_JoinRoom update_conv')
  have maps: "map_of (membersOf st2 r) = map_of (membersOf st1 r)" for r
    using f1 here
    by (auto simp: st2_def membersOf_JoinRoom n1 update_conv' delete_conv' fun_eq_iff)
  have "map_of (membersOf st2 roomname) (Nick st cl) = Some cl"
    using maps here by simp
  moreover from wf2 have "distinct (map fst (membersOf st2 roomname))"
    by (simp add: wellFormed_def)
  ultimately have one: "filter (\<lambda>(k, v). k = Nick st cl) (membersOf st2 roomname)
      = [(Nick st cl, cl)]"
    by (intro filter_key_distinct)
  have "clientExists st1 (Nick st1 cl)"
    unfolding n1 by (simp add: clientExists_iff st1_def Clients_JoinRoom dom_update)
  then have idx: "Clients (Serv st2) = Clients (Serv st1)"
    by (simp add: st2_def Clients_JoinRoom)
  from f1 f2 maps one idx show ?thesis
    unfolding st2_def st1_def by blast
qed

subsection \<open>Where the invariant holds\<close>

text \<open>
  What \<open>ChangeNick\<close> does, said with the room \<open>findRoom\<close> resolves: when \<open>oldNick\<close> maps to
  \<open>cl\<close> in the flat index, \<open>newNick\<close> is not a key of it, \<open>findRoom\<close> resolves \<open>r\<close> for \<open>cl\<close> and
  no other room has the key \<open>newNick\<close>, the rename succeeds and \<open>findRoom\<close> resolves \<open>r\<close> again.
  When no room has the key, \<open>ChangeNick\<close> returns the error of \<open>findRoom\<close> and the store is as
  it was.
\<close>

lemma ChangeNick_renames:
  assumes "map_of (Clients (Serv st)) oldNick = Some cl"
    and "newNick \<notin> fst ` set (Clients (Serv st))"
    and "findRoom st cl = Inr r"
    and "distinct (map fst (Rooms (Serv st)))"
    and "\<forall>(roomname, m) \<in> set (Rooms (Serv st)).
           roomname \<noteq> r \<longrightarrow> newNick \<notin> fst ` set (RoomClients m)"
  shows "fst (ChangeNick oldNick newNick st) = None
    \<and> Nick (snd (ChangeNick oldNick newNick st)) cl = newNick
    \<and> findRoom (snd (ChangeNick oldNick newNick st)) cl = Inr r
    \<and> map_of (membersOf (snd (ChangeNick oldNick newNick st)) r) newNick = Some cl
    \<and> map_of (Clients (Serv (snd (ChangeNick oldNick newNick st)))) newNick = Some cl
    \<and> oldNick \<notin> fst ` set (membersOf (snd (ChangeNick oldNick newNick st)) r)
    \<and> oldNick \<notin> fst ` set (Clients (Serv (snd (ChangeNick oldNick newNick st))))"
proof -
  let ?st' = "snd (ChangeNick oldNick newNick st)"
  note a = assms(2) assms(1) assms(3)
  have ne: "oldNick \<noteq> newNick"
    using assms(1,2) by (auto dest: map_of_SomeD intro: rev_image_eqI)
  have 1: "fst (ChangeNick oldNick newNick st) = None"
    by (rule ChangeNick_fst [OF a])
  have 2: "Nick ?st' cl = newNick"
    by (simp add: Nick_def ChangeNick_heap [OF a])
  have m: "membersOf ?st' r' =
      (if r' = r then AList.update newNick cl (AList.delete oldNick (membersOf st r))
       else membersOf st r')" for r'
    by (rule ChangeNick_membersOf [OF a])
  have 4: "map_of (membersOf ?st' r) newNick = Some cl"
    by (simp add: m update_conv')
  have 5: "map_of (Clients (Serv ?st')) newNick = Some cl"
    by (simp add: ChangeNick_Clients [OF a] update_conv')
  have 6: "oldNick \<notin> fst ` set (membersOf ?st' r)"
    using ne by (simp add: m dom_update delete_notin_dom)
  have 7: "oldNick \<notin> fst ` set (Clients (Serv ?st'))"
    using ne by (simp add: ChangeNick_Clients [OF a] dom_update delete_notin_dom)
  have 3: "findRoom ?st' cl = Inr r"
  proof (rule findRoom_unique)
    show "distinct (map fst (Rooms (Serv ?st')))"
      using assms(4) by (simp add: ChangeNick_names)
    show "Nick ?st' cl \<in> fst ` set (membersOf ?st' r)"
      unfolding 2 by (simp add: m dom_update)
    show "\<forall>r'. r' \<noteq> r \<longrightarrow> Nick ?st' cl \<notin> fst ` set (membersOf ?st' r')"
      unfolding 2 using assms(5) by (auto simp: m dest!: membersOf_in_Rooms)
  qed
  from 1 2 3 4 5 6 7 show ?thesis by simp
qed

lemma ChangeNick_no_key:
  assumes "map_of (Clients (Serv st)) oldNick = Some cl"
    and "newNick \<notin> fst ` set (Clients (Serv st))"
    and "\<forall>(roomname, r) \<in> set (Rooms (Serv st)). Nick st cl \<notin> fst ` set (RoomClients r)"
  shows "ChangeNick oldNick newNick st = (Some (NoRoom (Nick st cl)), st)"
proof -
  have "findRoomIn (Rooms (Serv st)) (Nick st cl) = None"
    using assms(3) by (simp add: findRoomIn_None)
  then have "findRoom st cl = Inl (NoRoom (Nick st cl))"
    by (simp add: findRoom_def)
  with assms(1,2) show ?thesis
    by (simp add: ChangeNick_def clientExists_iff)
qed

text \<open>
  In a store with the invariant, a client of the flat index has one seat: one room has it
  in its member map, under its nickname, that room is the one \<open>findRoom\<close> resolves, and no
  other room has the nickname as a key or the client as a value. A nickname that is not a
  key of the flat index is a key of no room, and no room has a client twice.
\<close>

lemma seat_value:
  assumes "wellFormed st" and "c \<in> snd ` set (membersOf st r)"
  obtains n where "map_of (membersOf st r) n = Some c"
proof -
  from assms(2) obtain n where "(n, c) \<in> set (membersOf st r)" by force
  moreover from assms(1) have "distinct (map fst (membersOf st r))"
    by (simp add: wellFormed_def)
  ultimately have "map_of (membersOf st r) n = Some c" by simp
  then show ?thesis by (rule that)
qed

lemma registryInv_seat:
  assumes inv: "registryInv st" and x: "map_of (Clients (Serv st)) n = Some cl"
  obtains r where "Nick st cl = n"
    and "map_of (membersOf st r) n = Some cl"
    and "findRoom st cl = Inr r"
    and "\<And>r'. n \<in> fst ` set (membersOf st r') \<Longrightarrow> r' = r"
    and "\<And>r'. cl \<in> snd ` set (membersOf st r') \<Longrightarrow> r' = r"
proof -
  let ?M = "\<lambda>r. map_of (membersOf st r)" and ?X = "map_of (Clients (Serv st))"
  from inv have wf: "wellFormed st" and coh: "coherent ?M ?X (Nick st)"
    by (simp_all add: registryInv_iff)
  from coh x have n: "Nick st cl = n" and "\<exists>r. ?M r n = Some cl"
    unfolding coherent_def by blast+
  then obtain r where r: "?M r n = Some cl" by blast
  have key: "r' = r" if "n \<in> fst ` set (membersOf st r')" for r'
  proof -
    from that obtain c where c: "?M r' n = Some c"
      by (cases "?M r' n") (auto simp: map_of_eq_None_iff)
    with coh have "?X n = Some c" unfolding coherent_def by blast
    with x have "c = cl" by simp
    with c r coh show ?thesis unfolding coherent_def by blast
  qed
  have val: "r' = r" if "cl \<in> snd ` set (membersOf st r')" for r'
  proof -
    from seat_value [OF wf that] obtain n' where "?M r' n' = Some cl" .
    with r coh show ?thesis unfolding coherent_def by blast
  qed
  have f: "findRoom st cl = Inr r"
  proof (rule findRoom_unique)
    from wf show "distinct (map fst (Rooms (Serv st)))" by (simp add: wellFormed_def)
    from r show "Nick st cl \<in> fst ` set (membersOf st r)"
      unfolding n by (auto dest: map_of_SomeD intro: rev_image_eqI)
    from key show "\<forall>r'. r' \<noteq> r \<longrightarrow> Nick st cl \<notin> fst ` set (membersOf st r')"
      unfolding n by blast
  qed
  from n r f key val show ?thesis by (rule that)
qed

lemma registryInv_no_key:
  assumes inv: "registryInv st" and x: "n \<notin> fst ` set (Clients (Serv st))"
  shows "n \<notin> fst ` set (membersOf st r)"
proof
  assume "n \<in> fst ` set (membersOf st r)"
  then obtain c where "map_of (membersOf st r) n = Some c"
    by (cases "map_of (membersOf st r) n") (auto simp: map_of_eq_None_iff)
  with inv have "map_of (Clients (Serv st)) n = Some c"
    unfolding registryInv_iff coherent_def by blast
  with x show False
    by (auto dest: map_of_SomeD intro: rev_image_eqI)
qed

lemma distinct_values:
  assumes "distinct (map fst m)"
    and "\<And>n1 n2 c. (n1, c) \<in> set m \<Longrightarrow> (n2, c) \<in> set m \<Longrightarrow> n1 = n2"
  shows "distinct (map snd m)"
  using assms
proof (induction m)
  case Nil
  then show ?case by simp
next
  case (Cons p m)
  obtain k v where p: "p = (k, v)" by (cases p)
  have "v \<notin> snd ` set m"
  proof
    assume "v \<in> snd ` set m"
    then obtain k' where k': "(k', v) \<in> set m" by force
    with Cons.prems(2) [of k v k'] p have "k = k'" by simp
    with k' Cons.prems(1) p show False by (auto intro: rev_image_eqI)
  qed
  moreover have "distinct (map snd m)"
    using Cons.prems by (intro Cons.IH) auto
  ultimately show ?case using p by simp
qed

lemma registryInv_values:
  assumes inv: "registryInv st"
  shows "distinct (map snd (membersOf st r))"
proof (rule distinct_values)
  from inv show d: "distinct (map fst (membersOf st r))"
    by (simp add: registryInv_iff wellFormed_def)
  fix n1 n2 c
  assume "(n1, c) \<in> set (membersOf st r)" and "(n2, c) \<in> set (membersOf st r)"
  with d have "map_of (membersOf st r) n1 = Some c" and "map_of (membersOf st r) n2 = Some c"
    by simp_all
  with inv have "map_of (Clients (Serv st)) n1 = Some c" and "map_of (Clients (Serv st)) n2 = Some c"
    unfolding registryInv_iff coherent_def by blast+
  with inv have "Nick st c = n1" and "Nick st c = n2"
    unfolding registryInv_iff coherent_def by blast+
  then show "n1 = n2" by simp
qed

text \<open>
  So, in a store with the invariant: a rename of a client of the flat index to a nickname
  that is free succeeds, and \<open>findRoom\<close> gives the room the client sits in, before and after;
\<close>

lemma ChangeNick_seated:
  assumes inv: "registryInv st"
    and old: "map_of (Clients (Serv st)) oldNick = Some cl"
    and new: "newNick \<notin> fst ` set (Clients (Serv st))"
  shows "\<exists>r. map_of (membersOf st r) oldNick = Some cl
      \<and> (\<forall>r'. cl \<in> snd ` set (membersOf st r') \<longrightarrow> r' = r)
      \<and> findRoom st cl = Inr r
      \<and> fst (ChangeNick oldNick newNick st) = None
      \<and> Nick (snd (ChangeNick oldNick newNick st)) cl = newNick
      \<and> findRoom (snd (ChangeNick oldNick newNick st)) cl = Inr r
      \<and> map_of (membersOf (snd (ChangeNick oldNick newNick st)) r) newNick = Some cl
      \<and> map_of (Clients (Serv (snd (ChangeNick oldNick newNick st)))) newNick = Some cl
      \<and> oldNick \<notin> fst ` set (membersOf (snd (ChangeNick oldNick newNick st)) r)
      \<and> oldNick \<notin> fst ` set (Clients (Serv (snd (ChangeNick oldNick newNick st))))
      \<and> registryInv (snd (ChangeNick oldNick newNick st))"
proof -
  from registryInv_seat [OF inv old] obtain r where
    r: "map_of (membersOf st r) oldNick = Some cl"
    and f: "findRoom st cl = Inr r"
    and val: "\<And>r'. cl \<in> snd ` set (membersOf st r') \<Longrightarrow> r' = r"
    by metis
  from inv have d: "distinct (map fst (Rooms (Serv st)))"
    by (simp add: registryInv_def)
  have nk: "newNick \<notin> fst ` set (RoomClients m)"
    if "(roomname, m) \<in> set (Rooms (Serv st))" for roomname m
    using registryInv_no_key [OF inv new, of roomname] membersOf_in [OF d that] by simp
  then have free: "\<forall>(roomname, m) \<in> set (Rooms (Serv st)).
           roomname \<noteq> r \<longrightarrow> newNick \<notin> fst ` set (RoomClients m)"
    by blast
  from ChangeNick_renames [OF old new f d free] r val f
    registryInv_ChangeNick [OF inv, of oldNick newNick]
  show ?thesis by blast
qed

text \<open>
  a message of a client of the flat index is written once to every member of the room the
  client sits in, the sender included, and to nobody else;
\<close>

lemma Message_seated:
  assumes inv: "registryInv st"
    and x: "map_of (Clients (Serv st)) (Nick st cl) = Some cl"
    and ws: "list_all word ws"
  shows "\<exists>R. cl \<in> snd ` set (membersOf st R)
      \<and> (\<forall>r'. cl \<in> snd ` set (membersOf st r') \<longrightarrow> r' = R)
      \<and> fst (Message now ws cl st) = None
      \<and> Serv (snd (Message now ws cl st)) = Serv st
      \<and> (\<forall>c. Conn (heap (snd (Message now ws cl st)) c) =
               Conn (heap st c)
               @ (if c \<in> snd ` set (membersOf st R) then [formatted now (Nick st cl) ws] else []))"
proof -
  from registryInv_seat [OF inv x] obtain R where
    r: "map_of (membersOf st R) (Nick st cl) = Some cl"
    and f: "findRoom st cl = Inr R"
    and val: "\<And>r'. cl \<in> snd ` set (membersOf st r') \<Longrightarrow> r' = R"
    by metis
  from r have seat: "cl \<in> snd ` set (membersOf st R)"
    by (auto dest: map_of_SomeD intro: rev_image_eqI)
  have dv: "distinct (map snd (membersOf st R))"
    by (rule registryInv_values [OF inv])
  have c: "Conn (heap (snd (Message now ws cl st)) c) =
             Conn (heap st c)
             @ replicate (count_list (map snd (membersOf st R)) c)
                 (formatted now (Nick st cl) ws)" for c
    unfolding Message_found [OF f] snd_conv by (rule Conn_deliver_line [OF ws])
  have "Conn (heap (snd (Message now ws cl st)) c) =
          Conn (heap st c)
          @ (if c \<in> snd ` set (membersOf st R) then [formatted now (Nick st cl) ws] else [])" for c
  proof (cases "c \<in> snd ` set (membersOf st R)")
    case True
    with dv have "count_list (map snd (membersOf st R)) c = 1"
      by (intro count_list_distinct) simp_all
    with True show ?thesis unfolding c by simp
  next
    case False
    then show ?thesis unfolding c by simp
  qed
  moreover have "fst (Message now ws cl st) = None" "Serv (snd (Message now ws cl st)) = Serv st"
    by (simp_all add: Message_found [OF f])
  ultimately show ?thesis using seat val by blast
qed

text \<open>
  and \<open>JoinRoom\<close> for a client of the flat index returns the error \<open>Client already exists\<close>
  after it has moved the client: the client has left the room it sat in and sits in the
  target room, and in no other.
\<close>

lemma JoinRoom_moves:
  assumes inv: "registryInv st"
    and x: "map_of (Clients (Serv st)) (Nick st cl) = Some cl"
  shows "fst (JoinRoom roomname cl st) = Some ClientAlreadyExists
    \<and> (\<exists>prev. cl \<in> snd ` set (membersOf st prev)
          \<and> (\<forall>r'. cl \<in> snd ` set (membersOf st r') \<longrightarrow> r' = prev)
          \<and> (prev \<noteq> roomname \<longrightarrow>
                cl \<notin> snd ` set (membersOf (snd (JoinRoom roomname cl st)) prev)))
    \<and> map_of (membersOf (snd (JoinRoom roomname cl st)) roomname) (Nick st cl) = Some cl
    \<and> (\<forall>r. cl \<in> snd ` set (membersOf (snd (JoinRoom roomname cl st)) r) \<longleftrightarrow> r = roomname)
    \<and> Clients (Serv (snd (JoinRoom roomname cl st))) = Clients (Serv st)
    \<and> heap (snd (JoinRoom roomname cl st)) = heap st"
proof -
  let ?st' = "snd (JoinRoom roomname cl st)"
  from registryInv_seat [OF inv x] obtain prev where
    r: "map_of (membersOf st prev) (Nick st cl) = Some cl"
    and val: "\<And>r'. cl \<in> snd ` set (membersOf st r') \<Longrightarrow> r' = prev"
    by metis
  from r have seat: "cl \<in> snd ` set (membersOf st prev)"
    by (auto dest: map_of_SomeD intro: rev_image_eqI)
  from x have ex: "clientExists st (Nick st cl)"
    by (simp add: clientExists_def)
  have a: "fst (JoinRoom roomname cl st) = Some ClientAlreadyExists"
    using ex by (simp add: JoinRoom_result)
  have b: "map_of (membersOf ?st' roomname) (Nick st cl) = Some cl"
    by (simp add: membersOf_JoinRoom update_conv')
  have d: "Clients (Serv ?st') = Clients (Serv st)"
    using ex by (simp add: Clients_JoinRoom)
  have inv': "registryInv ?st'"
    using inv x by (intro registryInv_JoinRoom) simp_all
  have x': "map_of (Clients (Serv ?st')) (Nick st cl) = Some cl"
    using x d by simp
  from registryInv_seat [OF inv' x'] obtain r0 where
    r0: "map_of (membersOf ?st' r0) (Nick st cl) = Some cl"
    and key0: "\<And>r'. Nick st cl \<in> fst ` set (membersOf ?st' r') \<Longrightarrow> r' = r0"
    and val0: "\<And>r'. cl \<in> snd ` set (membersOf ?st' r') \<Longrightarrow> r' = r0"
    by metis
  from b have "Nick st cl \<in> fst ` set (membersOf ?st' roomname)"
    by (auto dest: map_of_SomeD intro: rev_image_eqI)
  from key0 [OF this] have eq: "r0 = roomname" by simp
  have only: "cl \<in> snd ` set (membersOf ?st' r) \<longleftrightarrow> r = roomname" for r
  proof
    assume "cl \<in> snd ` set (membersOf ?st' r)"
    from val0 [OF this] eq show "r = roomname" by simp
  next
    assume "r = roomname"
    with b show "cl \<in> snd ` set (membersOf ?st' r)"
      by (auto dest: map_of_SomeD intro: rev_image_eqI)
  qed
  have p: "\<exists>prev. cl \<in> snd ` set (membersOf st prev)
          \<and> (\<forall>r'. cl \<in> snd ` set (membersOf st r') \<longrightarrow> r' = prev)
          \<and> (prev \<noteq> roomname \<longrightarrow> cl \<notin> snd ` set (membersOf ?st' prev))"
    using seat val only by blast
  have h: "heap ?st' = heap st" by simp
  from a p b only d h show ?thesis by blast
qed

section \<open>The claims\<close>

subsection \<open>C1: the result of JoinRoom\<close>




subsection \<open>C2: the invariant\<close>

text \<open>
  Claim C2 says that every operation of the registry preserves the invariant, \<open>CloseClient\<close>
  of a seated client in particular. It fails on \<open>CloseClient\<close>. With two clients in the
  default room the invariant holds; after \<open>CloseClient\<close> of the first one its nickname is gone
  from the flat index and is still a key of the room's member map, with the client.
\<close>

theorem CloseClient_counterexample:
  "registryInv worldAB
   \<and> \<not> registryInv (CloseClient 0 worldAB)
   \<and> (''user1'', 0) \<in> set (membersOf (CloseClient 0 worldAB) DefaultRoom)
   \<and> ''user1'' \<notin> fst ` set (Clients (Serv (CloseClient 0 worldAB)))"
  by code_simp

text \<open>
  Claim C2, amended. The invariant (a client is in some room's member map under the
  nickname \<open>n\<close> if and only if it is in the flat index under \<open>n\<close>; no client is in two
  rooms; every key is the current nickname of its client) is preserved by \<open>ChangeNick\<close>,
  \<open>Message\<close> and \<open>Blast\<close>, and by \<open>JoinRoom\<close> for a client whose nickname is not listed in the
  flat index for another client. \<open>CloseClient\<close> does not preserve it: it deletes the client's
  nickname from the flat index and leaves every room as it is, so after \<open>CloseClient\<close> of a
  client that was listed the invariant is broken.
\<close>

theorem registryInv_preserved:
  assumes "registryInv st"
  shows "registryInv (snd (ChangeNick a b st))
    \<and> registryInv (snd (Message now ws cl st))
    \<and> (\<forall>st'. Blast now ws cl st = Some st' \<longrightarrow> registryInv st')
    \<and> (map_of (Clients (Serv st)) (Nick st cl) = None
         \<or> map_of (Clients (Serv st)) (Nick st cl) = Some cl
        \<longrightarrow> registryInv (snd (JoinRoom roomname cl st)))
    \<and> Rooms (Serv (CloseClient cl st)) = Rooms (Serv st)
    \<and> Clients (Serv (CloseClient cl st)) = AList.delete (Nick st cl) (Clients (Serv st))
    \<and> (Nick st cl \<in> fst ` set (Clients (Serv st)) \<longrightarrow> \<not> registryInv (CloseClient cl st))"
proof (intro conjI allI impI)
  show "registryInv (snd (ChangeNick a b st))"
    by (rule registryInv_ChangeNick [OF assms])
  show "registryInv (snd (Message now ws cl st))"
    using assms by (simp add: registryInv_Message)
  show "registryInv st'" if "Blast now ws cl st = Some st'" for st'
    using assms registryInv_Blast [OF that] by simp
  show "registryInv (snd (JoinRoom roomname cl st))"
    if "map_of (Clients (Serv st)) (Nick st cl) = None
         \<or> map_of (Clients (Serv st)) (Nick st cl) = Some cl"
    by (rule registryInv_JoinRoom [OF assms that])
  show "Rooms (Serv (CloseClient cl st)) = Rooms (Serv st)"
    by simp
  show "Clients (Serv (CloseClient cl st)) = AList.delete (Nick st cl) (Clients (Serv st))"
    by (rule Clients_CloseClient)
  show "\<not> registryInv (CloseClient cl st)"
    if "Nick st cl \<in> fst ` set (Clients (Serv st))"
    by (rule registryInv_CloseClient [OF assms that])
qed

theorem registryInv_preserved_witness:
  "registryInv worldAB
   \<and> registryInv (snd (ChangeNick ''user1'' ''robin'' worldAB))
   \<and> registryInv (snd (Message ''T'' [''hi''] 0 worldAB))
   \<and> registryInv (snd (JoinRoom ''r2'' 1 worldAB))
   \<and> \<not> registryInv (CloseClient 1 worldAB)"
proof -
  have i: "registryInv worldAB"
    by code_simp
  have n: "Nick worldAB 1 = ''user2''"
    by (simp add: Nick_def heap_worldAB store0_def)
  have o: "map_of (Clients (Serv worldAB)) (Nick worldAB 1) = Some 1"
    and l: "Nick worldAB 1 \<in> fst ` set (Clients (Serv worldAB))"
    using n by (simp_all add: Serv_worldAB)
  from registryInv_preserved [OF i, of "''user1''" "''robin''" "''T''" "[''hi'']" 0]
  have "registryInv (snd (ChangeNick ''user1'' ''robin'' worldAB))"
    and "registryInv (snd (Message ''T'' [''hi''] 0 worldAB))"
    by blast+
  moreover from registryInv_preserved [OF i, of _ _ _ _ 1 "''r2''"] o l
  have "registryInv (snd (JoinRoom ''r2'' 1 worldAB))"
    and "\<not> registryInv (CloseClient 1 worldAB)"
    by blast+
  ultimately show ?thesis using i by simp
qed

subsection \<open>C3: Blast\<close>

text \<open>
  Claim C3 says that \<open>Blast\<close> delivers the line \<open>Message\<close> would deliver for the same word
  list. It fails: \<open>Blast\<close> starts at \<open>inputs[1:]\<close>, so for the two words \<open>x\<close> and \<open>y\<close> it
  delivers a line with \<open>y\<close> only, and \<open>Message\<close> one with both.
\<close>

theorem Blast_counterexample:
  "map_option (\<lambda>w. Conn (heap w 0)) (Blast ''T'' [''x'', ''y''] 0 worldAB)
     = Some [''[T:user1] y'' @ CRLF]
   \<and> Conn (heap (snd (Message ''T'' [''x'', ''y''] 0 worldAB)) 0) = [''[T:user1] x y'' @ CRLF]"
  by code_simp

text \<open>
  Claim C3, amended. \<open>Blast\<close> skips the first element of its list (the driver passes the
  token \<open>/blast\<close> there) and panics on the empty list. For a list \<open>first # ws\<close> with words
  \<open>ws\<close> it writes the line \<open>Message\<close> writes for \<open>ws\<close>: the tag with the clock and the sender's
  current nickname, then the words of \<open>ws\<close> joined with single spaces. It writes that line
  once for every entry of the flat index, whatever the rooms are: exactly once to a client
  the index lists once, and never to a client it does not list. The server is unchanged.
\<close>

theorem Blast_delivers:
  assumes "list_all word ws"
  shows "Blast now [] cl st = None
    \<and> (\<exists>st'. Blast now (first # ws) cl st = Some st'
          \<and> Serv st' = Serv st
          \<and> (\<forall>c. Conn (heap st' c) =
                 Conn (heap st c)
                 @ replicate (count_list (map snd (Clients (Serv st))) c)
                     (formatted now (Nick st cl) ws)))
    \<and> (\<forall>R c. findRoom st cl = Inr R \<longrightarrow>
          Conn (heap (snd (Message now ws cl st)) c) =
            Conn (heap st c)
            @ replicate (count_list (map snd (membersOf st R)) c)
                (formatted now (Nick st cl) ws))"
proof -
  have a: "Blast now [] cl st = None"
    by (simp add: Blast_def)
  have b: "\<exists>st'. Blast now (first # ws) cl st = Some st'
          \<and> Serv st' = Serv st
          \<and> (\<forall>c. Conn (heap st' c) =
                 Conn (heap st c)
                 @ replicate (count_list (map snd (Clients (Serv st))) c)
                     (formatted now (Nick st cl) ws))"
  proof (intro exI conjI allI)
    show "Blast now (first # ws) cl st =
      Some (deliver (foldl (\<lambda>msg v. msg @ '' '' @ v) (''['' @ now @ '':'' @ Nick st cl @ '']'') ws @ CRLF)
             (Clients (Serv st)) st)"
      by (rule Blast_Cons)
  qed (rule Serv_deliver, rule Conn_deliver_line [OF assms])
  have c: "Conn (heap (snd (Message now ws cl st)) c) =
            Conn (heap st c)
            @ replicate (count_list (map snd (membersOf st R)) c)
                (formatted now (Nick st cl) ws)"
    if "findRoom st cl = Inr R" for R c
    unfolding Message_found [OF that] snd_conv by (rule Conn_deliver_line [OF assms])
  from a b c show ?thesis by blast
qed

theorem Blast_delivers_witness:
  "list_all word [''y'']
   \<and> map_option (\<lambda>w. Conn (heap w 1)) (Blast ''T'' [''/blast'', ''y''] 0 worldAB)
       = Some [formatted ''T'' ''user1'' [''y'']]
   \<and> formatted ''T'' ''user1'' [''y''] = ''[T:user1] y'' @ CRLF"
proof -
  have w: "list_all word [''y'']"
    by code_simp
  have n: "Nick worldAB 0 = ''user1''"
    by (simp add: Nick_def heap_worldAB store0_def)
  have c: "Conn (heap worldAB 1) = []"
    by (simp add: heap_worldAB store0_def)
  have k: "count_list (map snd (Clients (Serv worldAB))) 1 = 1"
    by (simp add: Serv_worldAB)
  from Blast_delivers [OF w, of "''T''" 0 worldAB "''/blast''"]
  obtain st' where "Blast ''T'' [''/blast'', ''y''] 0 worldAB = Some st'"
    and "\<forall>c. Conn (heap st' c) =
                 Conn (heap worldAB c)
                 @ replicate (count_list (map snd (Clients (Serv worldAB))) c)
                     (formatted ''T'' (Nick worldAB 0) [''y''])"
    by blast
  then have "map_option (\<lambda>w. Conn (heap w 1)) (Blast ''T'' [''/blast'', ''y''] 0 worldAB)
       = Some [formatted ''T'' ''user1'' [''y'']]"
    using n c k by simp
  moreover have "formatted ''T'' ''user1'' [''y''] = ''[T:user1] y'' @ CRLF"
    by (simp add: formatted_def)
  ultimately show ?thesis using w by simp
qed

subsection \<open>C4: a nickname that is taken\<close>

text \<open>
  Claim C4. When the new nickname \<open>b\<close> is a key of the flat index (\<open>b = a\<close> included),
  \<open>ChangeNick a b\<close> returns the error \<open>user [b] already exists\<close> and the store after the call
  is the store before it: every client's nickname, the flat index and every room's member
  map are untouched.
\<close>

theorem ChangeNick_taken:
  assumes "b \<in> fst ` set (Clients (Serv st))"
  shows "ChangeNick a b st = (Some (UserExists b), st)"
  using assms by (simp add: ChangeNick_def clientExists_iff)

theorem ChangeNick_taken_witness:
  "''user2'' \<in> fst ` set (Clients (Serv worldAB))
   \<and> ChangeNick ''user1'' ''user2'' worldAB = (Some (UserExists ''user2''), worldAB)"
proof -
  have h: "''user2'' \<in> fst ` set (Clients (Serv worldAB))"
    by (simp add: Serv_worldAB)
  from ChangeNick_taken [OF h] h show ?thesis by simp
qed

subsection \<open>C5: the rename\<close>

text \<open>
  Claim C5: when \<open>oldNick\<close> is in the flat index, \<open>newNick\<close> is not, and the client holding
  \<open>oldNick\<close> is seated in the room \<open>r\<close>, the rename succeeds and afterwards \<open>findRoom\<close> gives the
  same room \<open>r\<close> for the client. The code does not keep this at the store \<open>worldQ\<close>. There
  \<open>user2\<close> is in the flat index and maps to the second client, \<open>user1\<close> is not in it (its
  client quit), the second client is seated in \<open>r2\<close>, and \<open>findRoom\<close> resolves \<open>r2\<close> for it.
  \<open>ChangeNick user2 user1\<close> succeeds and renames the entry of \<open>r2\<close>; but the default room
  still has the entry \<open>CloseClient\<close> left of the client that quit, under \<open>user1\<close>, and
  \<open>findRoom\<close>, which looks for the nickname and not for the client, comes to it first: after
  the call it gives the default room for the renamed client, a room the client is not in.
\<close>

theorem ChangeNick_other_room:
  "map_of (Clients (Serv worldQ)) ''user2'' = Some 1
   \<and> ''user1'' \<notin> fst ` set (Clients (Serv worldQ))
   \<and> membersOf worldQ DefaultRoom = [(''user1'', 0)]
   \<and> membersOf worldQ ''r2'' = [(''user2'', 1)]
   \<and> findRoom worldQ 1 = Inr ''r2''
   \<and> fst (ChangeNick ''user2'' ''user1'' worldQ) = None
   \<and> membersOf (snd (ChangeNick ''user2'' ''user1'' worldQ)) DefaultRoom = [(''user1'', 0)]
   \<and> membersOf (snd (ChangeNick ''user2'' ''user1'' worldQ)) ''r2'' = [(''user1'', 1)]
   \<and> findRoom (snd (ChangeNick ''user2'' ''user1'' worldQ)) 1 = Inr DefaultRoom
   \<and> DefaultRoom \<noteq> ''r2''"
  by code_simp

subsection \<open>C6: Message\<close>

text \<open>
  Claim C6: a message of a client seated in the room \<open>R\<close> is delivered once to every member
  of \<open>R\<close>, the sender included, and to no client that is not in \<open>R\<close>. The code does not keep
  this at the store \<open>ghostW\<close>. There the second client is seated in \<open>r2\<close>, under its nickname,
  and is the only member of that room; the default room still has the entry of the client
  that quit, under the same nickname, and \<open>findRoom\<close> resolves the default room for the
  sender. \<open>Message\<close> succeeds, the sender gets nothing, and the line is written to the client
  that quit, which is not in \<open>r2\<close>. (The comment of \<open>Message\<close> says that it sends the message to
  only the room the client is attached to.)
\<close>

theorem Message_other_room:
  "map_of (membersOf ghostW ''r2'') (Nick ghostW 1) = Some 1
   \<and> map snd (membersOf ghostW ''r2'') = [1]
   \<and> findRoom ghostW 1 = Inr DefaultRoom
   \<and> map snd (membersOf ghostW DefaultRoom) = [0]
   \<and> fst (Message ''T'' [''hello''] 1 ghostW) = None
   \<and> Conn (heap (snd (Message ''T'' [''hello''] 1 ghostW)) 1) = Conn (heap ghostW 1)
   \<and> Conn (heap (snd (Message ''T'' [''hello''] 1 ghostW)) 0)
       = Conn (heap ghostW 0) @ [''[T:user1] hello'' @ CRLF]"
  by code_simp

subsection \<open>C7: a rename without a room\<close>

text \<open>
  Claim C7: when \<open>oldNick\<close> is in the flat index, \<open>newNick\<close> is not, and the client holding
  \<open>oldNick\<close> is not a member of any room, \<open>ChangeNick\<close> returns the error of \<open>findRoom\<close> and
  changes nothing. The code does not keep this at the store \<open>seatless\<close>. There the flat index
  has the second client under \<open>user1\<close>, \<open>robin\<close> is not in it, and the two rooms are the
  default room, which is empty, and \<open>x\<close>, whose one member is the first client: the second
  client is a member of no room. \<open>findRoom\<close> looks for the nickname and not for the client,
  and the first client has the same nickname: \<open>ChangeNick user1 robin\<close> returns no error,
  renames the second client, deletes the first client's entry from \<open>x\<close> and seats the second
  client there.
\<close>

theorem ChangeNick_takes_seat:
  "map_of (Clients (Serv seatless)) ''user1'' = Some 1
   \<and> ''robin'' \<notin> fst ` set (Clients (Serv seatless))
   \<and> map fst (Rooms (Serv seatless)) = [DefaultRoom, ''x'']
   \<and> membersOf seatless DefaultRoom = []
   \<and> membersOf seatless ''x'' = [(''user1'', 0)]
   \<and> fst (ChangeNick ''user1'' ''robin'' seatless) = None
   \<and> Nick (snd (ChangeNick ''user1'' ''robin'' seatless)) 1 = ''robin''
   \<and> Clients (Serv (snd (ChangeNick ''user1'' ''robin'' seatless))) = [(''robin'', 1)]
   \<and> membersOf (snd (ChangeNick ''user1'' ''robin'' seatless)) DefaultRoom = []
   \<and> membersOf (snd (ChangeNick ''user1'' ''robin'' seatless)) ''x'' = [(''robin'', 1)]"
  by code_simp

subsection \<open>C8: the replies of the driver\<close>




subsection \<open>C9: JoinRoom, twice\<close>

text \<open>
  Claim C9 says that the room of a client is the same before and after the second of two
  calls of \<open>JoinRoom\<close> with the same room. At the store \<open>ghostW\<close> it is not. There the second
  client sits in \<open>r2\<close> and the default room still holds the entry a client that quit left
  under the same nickname. The first \<open>JoinRoom\<close> to the room \<open>x\<close> deletes the entry of the
  default room, the first one \<open>findRoom\<close> comes to, and seats the client in \<open>x\<close>: the client
  now has entries in \<open>r2\<close> and in \<open>x\<close>, and \<open>findRoom\<close> resolves \<open>r2\<close> for it. The second
  \<open>JoinRoom\<close> to \<open>x\<close> deletes the entry of \<open>r2\<close>: afterwards \<open>findRoom\<close> resolves \<open>x\<close>.
  (\<open>tryDeleteFromRoom\<close> deletes one entry where its comment says it deletes any reference of
  the client from all the rooms.)
\<close>

theorem JoinRoom_twice_second_seat:
  "membersOf (snd (JoinRoom ''x'' 1 ghostW)) ''r2'' = [(''user1'', 1)]
   \<and> membersOf (snd (JoinRoom ''x'' 1 ghostW)) ''x'' = [(''user1'', 1)]
   \<and> findRoom (snd (JoinRoom ''x'' 1 ghostW)) 1 = Inr ''r2''
   \<and> membersOf (snd (JoinRoom ''x'' 1 (snd (JoinRoom ''x'' 1 ghostW)))) ''r2'' = []
   \<and> membersOf (snd (JoinRoom ''x'' 1 (snd (JoinRoom ''x'' 1 ghostW)))) ''x'' = [(''user1'', 1)]
   \<and> findRoom (snd (JoinRoom ''x'' 1 (snd (JoinRoom ''x'' 1 ghostW)))) 1 = Inr ''x''"
  by code_simp

subsection \<open>C10: an error after the move\<close>

text \<open>
  Claim C10: for a client whose nickname is in the flat index, \<open>JoinRoom\<close> returns the error
  \<open>Client already exists\<close> after it has removed the client from its previous room and put it
  into the target room. The code does not keep this at the store \<open>ghostW\<close>. There the second
  client is named \<open>user1\<close>, is in the flat index and is seated in \<open>r2\<close>; the default room still
  has the entry of the client that quit, under the same nickname. \<open>JoinRoom x\<close> for the second
  client returns the error and puts the client into \<open>x\<close>, but the entry it deletes is the one
  of the default room, which is the other client's: the second client is still in \<open>r2\<close>, its
  previous room, and is now in two rooms. (The comment of \<open>tryDeleteFromRoom\<close> says that it
  deletes any reference of the client from all the rooms.)
\<close>

theorem JoinRoom_keeps_seat:
  "Nick ghostW 1 = ''user1''
   \<and> map_of (Clients (Serv ghostW)) ''user1'' = Some 1
   \<and> membersOf ghostW DefaultRoom = [(''user1'', 0)]
   \<and> membersOf ghostW ''r2'' = [(''user1'', 1)]
   \<and> fst (JoinRoom ''x'' 1 ghostW) = Some ClientAlreadyExists
   \<and> map fst (Rooms (Serv (snd (JoinRoom ''x'' 1 ghostW)))) = [DefaultRoom, ''r2'', ''x'']
   \<and> membersOf (snd (JoinRoom ''x'' 1 ghostW)) DefaultRoom = []
   \<and> map_of (membersOf (snd (JoinRoom ''x'' 1 ghostW)) ''r2'') ''user1'' = Some 1
   \<and> map_of (membersOf (snd (JoinRoom ''x'' 1 ghostW)) ''x'') ''user1'' = Some 1"
  by code_simp

end
